theory Spec2Isabelle
  imports Main "HOL-Library.Multiset"
begin

section \<open>The package record and the fixed tables of \<^verbatim>\<open>jenkins_uploader.go\<close>\<close>

text \<open>
  The Go struct \<^verbatim>\<open>Package\<close>. Strings are byte lists. A Go map is a partial function;
  reading a missing key (or reading a nil map) gives the zero value \<^verbatim>\<open>false\<close>, which is
  what \<open>map_get\<close> does. Every write to one of the two maps in the source is preceded by a
  \<^verbatim>\<open>make\<close> of that map, so the nil map and the empty map are not told apart.
\<close>

record Package =
  Artifact :: string
  File :: string
  Project :: string
  Revision :: string
  NeedUpdate :: "string \<rightharpoonup> bool"
  Updated :: "string \<rightharpoonup> bool"
  Valid :: bool

definition map_get :: "(string \<rightharpoonup> bool) \<Rightarrow> string \<Rightarrow> bool" where
  "map_get m k = (case m k of None \<Rightarrow> False | Some b \<Rightarrow> b)"

text \<open>The zero value \<^verbatim>\<open>&Package{}\<close>.\<close>

definition zero_Package :: Package where
  "zero_Package =
     \<lparr>Artifact = [], File = [], Project = [], Revision = [],
      NeedUpdate = Map.empty, Updated = Map.empty, Valid = False\<rparr>"

definition acceptableMIMETypes :: "string list" where
  "acceptableMIMETypes =
     [''application/x-compressed'', ''application/x-gzip'', ''application/zip'']"

definition AllClusters :: "string list" where
  "AllClusters = [''atla'', ''smf1'']"

fun stringInArray :: "string \<Rightarrow> string list \<Rightarrow> bool" where
  "stringInArray s [] = False"
| "stringInArray s (v # list) = (if s = v then True else stringInArray s list)"

section \<open>The revision pattern\<close>

text \<open>
  \<^verbatim>\<open>shaMatch = regexp.MustCompile("[0-9a-f]{40}")\<close> and
  \<^verbatim>\<open>shaMatch.FindAllString(s, -1)\<close>: the successive leftmost non-overlapping matches. The
  pattern has a single length, so the scan is: at each position, if the next 40 bytes are
  all in \<^verbatim>\<open>[0-9a-f]\<close> they are a match and the scan goes on behind them, otherwise it moves
  one byte on.
\<close>

definition sha_char :: "char \<Rightarrow> bool" where
  "sha_char c = (c \<in> set ''0123456789abcdef'')"

definition sha_at :: "string \<Rightarrow> bool" where
  "sha_at s = (40 \<le> length s \<and> list_all sha_char (take 40 s))"

fun FindAllString :: "string \<Rightarrow> string list" where
  "FindAllString [] = []"
| "FindAllString (c # cs) =
     (if sha_at (c # cs) then take 40 (c # cs) # FindAllString (drop 39 cs)
      else FindAllString cs)"

section \<open>The task bodies\<close>

text \<open>
  Every task is a goroutine that works on one record through a pointer and may send that
  pointer on its own channel (its future). A body is modelled as a function of the record
  and of the results of the external calls it makes; it returns the record as the
  goroutine leaves it and the list of values the goroutine sends on its future, in
  order. A result of an external call is \<open>Inl err\<close> for a non-nil Go error and \<open>Inr v\<close>
  otherwise.
\<close>

text \<open>
  \<^verbatim>\<open>CheckIfValidPackage\<close>: the argument is the outcome of \<^verbatim>\<open>http.Get(p.Artifact)\<close>, on
  success the value of \<^verbatim>\<open>response.Header.Get("content-type")\<close>.
\<close>

definition CheckIfValidPackage :: "Package \<Rightarrow> string + string \<Rightarrow> Package \<times> Package list" where
  "CheckIfValidPackage p response =
     (let p1 = p\<lparr>Valid := False\<rparr>;
          p2 = (case response of
                  Inl err \<Rightarrow> p1
                | Inr content_type \<Rightarrow>
                    if stringInArray content_type acceptableMIMETypes
                    then p1\<lparr>Valid := True\<rparr> else p1)
      in (p2, [p2]))"

text \<open>
  \<^verbatim>\<open>clusterOkToUpdate\<close>: the argument \<open>run\<close> is the outcome of running
  \<^verbatim>\<open>aurora package_versions --cluster=<cluster> jenkins <project>\<close>: the error of
  \<^verbatim>\<open>cmd.Run()\<close>, or the captured standard output. \<open>slice xs a b\<close> is the Go slice
  expression \<^verbatim>\<open>xs[a:b]\<close> for \<open>a \<le> b \<le> length xs\<close>.
\<close>

definition slice :: "'a list \<Rightarrow> nat \<Rightarrow> nat \<Rightarrow> 'a list" where
  "slice xs a b = take (b - a) (drop a xs)"

definition clusterOkToUpdate :: "Package \<Rightarrow> string \<Rightarrow> string + string \<Rightarrow> bool \<times> string" where
  "clusterOkToUpdate p cluster run =
     (case run of
        Inl err \<Rightarrow> (True, err)
      | Inr out \<Rightarrow>
          (let shas = FindAllString out in
           if length shas < 1
           then (True, ''No shas found for '' @ Project p @ '' in '' @ cluster)
           else
             (let latest = slice shas (length shas - 1) (length shas) ! 0 in
              if Revision p = latest
              then (False, Project p @ '' does not need to be updated.'')
              else (True, Project p @ '' is not up to date in '' @ cluster))))"

text \<open>
  \<^verbatim>\<open>IsUpdateNeeded\<close>: the caller's part makes a fresh map, the goroutine then asks every
  cluster of \<^verbatim>\<open>AllClusters\<close> in turn. \<open>query cluster\<close> is the outcome of the query
  tool for this package in that cluster.
\<close>

definition IsUpdateNeeded_go :: "(string \<Rightarrow> string + string) \<Rightarrow> Package \<Rightarrow> string list \<Rightarrow> Package" where
  "IsUpdateNeeded_go query p clusters =
     foldl (\<lambda>q cluster.
              q\<lparr>NeedUpdate := (NeedUpdate q)(cluster \<mapsto> fst (clusterOkToUpdate q cluster (query cluster)))\<rparr>)
           p clusters"

definition IsUpdateNeeded :: "Package \<Rightarrow> (string \<Rightarrow> string + string) \<Rightarrow> Package \<times> Package list" where
  "IsUpdateNeeded p query =
     (let p0 = p\<lparr>NeedUpdate := Map.empty\<rparr>;
          p1 = IsUpdateNeeded_go query p0 AllClusters
      in (p1, [p1]))"

text \<open>
  \<^verbatim>\<open>path.Base\<close> of the Go library: the last element of a slash-separated path, after
  removing trailing slashes; \<^verbatim>\<open>"."\<close> for the empty path and \<^verbatim>\<open>"/"\<close> for a path of
  slashes only. \<open>Split_first s sep\<close> is \<^verbatim>\<open>strings.Split(s, sep)[0]\<close> for a non-empty
  separator: the text before the first occurrence of \<open>sep\<close>, all of \<open>s\<close> when there is
  none (the result of \<^verbatim>\<open>Split\<close> always has a first element).
\<close>

definition path_Base :: "string \<Rightarrow> string" where
  "path_Base path =
     (if path = [] then ''.''
      else
        (let stripped = rev (dropWhile (\<lambda>c. c = CHR ''/'') (rev path));
             base = rev (takeWhile (\<lambda>c. c \<noteq> CHR ''/'') (rev stripped))
         in if base = [] then ''/'' else base))"

fun Split_first :: "string \<Rightarrow> string \<Rightarrow> string" where
  "Split_first [] sep = []"
| "Split_first (c # cs) sep =
     (if take (length sep) (c # cs) = sep then [] else c # Split_first cs sep)"

text \<open>
  \<^verbatim>\<open>decodeJsonFile\<close>. The argument \<open>m\<close> is what the file system and the JSON decoder do
  with the manifest: \<open>OpenError e\<close> when \<^verbatim>\<open>os.Open\<close> fails, and otherwise
  \<open>Decoded q err\<close>, where \<open>q\<close> is the record as \<^verbatim>\<open>jsonParser.Decode(p)\<close> leaves it,
  starting from the zero value, and \<open>err\<close> the error it returns, if any. When the file
  could not be opened the decoder reads from a nil file, gets an error from the first
  read and leaves the record as it is. Both errors are only logged. The decoder of the Go
  library is not part of this repository; it fills every exported field of the struct
  that the JSON object names, and a value of the wrong type for one field makes it
  skip that field, fill the others and return an error all the same.
\<close>

datatype manifest = OpenError string | Decoded Package "string option"

definition decodeJsonFile :: "string \<Rightarrow> manifest \<Rightarrow> Package \<times> Package list" where
  "decodeJsonFile jsonFile m =
     (let p = (case m of OpenError e \<Rightarrow> zero_Package | Decoded q err \<Rightarrow> q);
          p' = p\<lparr>Project := Split_first (path_Base jsonFile) ''.json''\<rparr>
      in (p', [p']))"

text \<open>
  \<^verbatim>\<open>DownloadArtifact\<close>. \<open>download_io\<close> holds the errors of the four calls that can make
  the goroutine give up: \<^verbatim>\<open>os.MkdirAll\<close> (with the value of \<^verbatim>\<open>os.IsExist(err)\<close>),
  \<^verbatim>\<open>os.Create\<close>, \<^verbatim>\<open>http.Get\<close> and \<^verbatim>\<open>io.Copy\<close>. The \<^verbatim>\<open>os.Stat\<close>/\<^verbatim>\<open>os.Remove\<close> pair
  before them touches the file system only. \<open>join\<close> is \<^verbatim>\<open>path.Join\<close> of the Go library
  on two elements, taken as a parameter.
\<close>

record download_io =
  MkdirAll_err :: "(string \<times> bool) option"
  Create_err :: "string option"
  Get_err :: "string option"
  Copy_err :: "string option"

definition DownloadArtifact ::
  "(string \<Rightarrow> string \<Rightarrow> string) \<Rightarrow> Package \<Rightarrow> string \<Rightarrow> download_io \<Rightarrow> Package \<times> Package list" where
  "DownloadArtifact join p basedir io =
     (let outpath = join basedir (Project p);
          outname = join outpath (path_Base (Artifact p))
      in if (case MkdirAll_err io of None \<Rightarrow> False | Some (err, is_exist) \<Rightarrow> \<not> is_exist)
         then (p, [])
         else if Create_err io \<noteq> None then (p, [])
         else if Get_err io \<noteq> None then (p, [])
         else if Copy_err io \<noteq> None then (p, [])
         else (let p' = p\<lparr>File := outname\<rparr> in (p', [p'])))"

text \<open>
  \<^verbatim>\<open>UpdatePackage\<close>. The caller's part, run by \<^verbatim>\<open>main\<close> at every call, replaces the
  \<^verbatim>\<open>Updated\<close> map by a fresh one. The goroutine looks up the current user (a failed lookup
  leaves a nil pointer, and reading \<^verbatim>\<open>current_user.Username\<close> then panics: \<open>None\<close>), runs
  \<^verbatim>\<open>aurora package_add_version\<close> and writes the outcome into the map the record holds at
  that moment.
\<close>

definition UpdatePackage_make :: "Package \<Rightarrow> Package" where
  "UpdatePackage_make p = p\<lparr>Updated := Map.empty\<rparr>"

definition UpdatePackage_go ::
  "Package \<Rightarrow> string \<Rightarrow> string option \<Rightarrow> string + string \<Rightarrow> (Package \<times> Package list) option" where
  "UpdatePackage_go p cluster current_user run =
     (case current_user of
        None \<Rightarrow> None
      | Some username \<Rightarrow>
          (let p' = (case run of
                       Inl err \<Rightarrow> p\<lparr>Updated := (Updated p)(cluster \<mapsto> False)\<rparr>
                     | Inr out \<Rightarrow> p\<lparr>Updated := (Updated p)(cluster \<mapsto> True)\<rparr>)
           in Some (p', [p'])))"

section \<open>The pool of futures\<close>

text \<open>
  \<^verbatim>\<open>Futures\<close>: the shared channel and the counter. \<open>Channels\<close> holds the values that the
  forwarding goroutines have to hand over on the shared channel. The channel is
  unbuffered, so which of the waiting values a receive gets is up to the scheduler:
  \<open>chan_recv choice\<close> takes the value at position \<open>choice mod length\<close>, and blocks
  (\<open>None\<close>) when no value is waiting and none will come. \<^verbatim>\<open>ItemsInChannels\<close> is a Go
  \<^verbatim>\<open>int\<close> (64 bits) and is modelled as an integer. The increment of \<^verbatim>\<open>AddFuture\<close> is
  written without the wrap-around of the machine integer: it is the Go increment as long
  as the counter is below \<open>2^63 - 1\<close>, which the statements about the counter require. A
  run of \<^verbatim>\<open>main\<close> starts at zero and adds one for every goroutine it starts.
\<close>

record Futures =
  Channels :: "Package list"
  ItemsInChannels :: int

definition chan_recv :: "nat \<Rightarrow> 'a list \<Rightarrow> ('a \<times> 'a list) option" where
  "chan_recv choice waiting =
     (if waiting = [] then None
      else (let i = choice mod length waiting
            in Some (waiting ! i, take i waiting @ drop (Suc i) waiting)))"

text \<open>
  The loop \<^verbatim>\<open>for ; futures.ItemsInChannels > 0; futures.ItemsInChannels-- { <-futures.Channels }\<close>
  of \<^verbatim>\<open>BlockUntilComplete\<close> and of \<^verbatim>\<open>GetAllPackages\<close>. It returns the counter, the
  values still waiting and the values received, in the order received; \<open>None\<close> when a
  receive blocks for ever. \<open>pick n\<close> is the scheduler's choice at the receive made with
  counter \<open>n\<close>.
\<close>

function recv_loop ::
  "(int \<Rightarrow> nat) \<Rightarrow> int \<Rightarrow> 'a list \<Rightarrow> 'a list \<Rightarrow> (int \<times> 'a list \<times> 'a list) option" where
  "recv_loop pick n chan got =
     (if 0 < n
      then (case chan_recv (pick n) chan of
              None \<Rightarrow> None
            | Some (v, chan') \<Rightarrow> recv_loop pick (n - 1) chan' (got @ [v]))
      else Some (n, chan, got))"
  by pat_completeness auto
termination
  by (relation "measure (\<lambda>(pick, n, chan, got). nat n)") auto

definition BlockUntilComplete :: "(int \<Rightarrow> nat) \<Rightarrow> Futures \<Rightarrow> Futures option" where
  "BlockUntilComplete pick futures =
     (case recv_loop pick (ItemsInChannels futures) (Channels futures) [] of
        None \<Rightarrow> None
      | Some (n, chan, got) \<Rightarrow> Some \<lparr>Channels = chan, ItemsInChannels = n\<rparr>)"

text \<open>
  \<^verbatim>\<open>AddFuture\<close> starts a goroutine that relays whatever arrives on the future to the
  shared channel, and increments the counter. \<open>future\<close> is the list of values that the
  task sends on its future; \<open>forward\<close> is the relaying alone.
\<close>

definition forward :: "Futures \<Rightarrow> Package list \<Rightarrow> Futures" where
  "forward futures sent = futures\<lparr>Channels := Channels futures @ sent\<rparr>"

definition AddFuture :: "Futures \<Rightarrow> Package list \<Rightarrow> Futures" where
  "AddFuture futures future =
     (forward futures future)\<lparr>ItemsInChannels := ItemsInChannels futures + 1\<rparr>"

section \<open>The environment of a run\<close>

text \<open>
  Everything the program gets from outside: the matches of \<^verbatim>\<open>filepath.Glob\<close>, what
  opening and decoding each manifest gives, the outcome of each external call of each
  task, and the scheduler's choices. Packages are named by their position in \<^verbatim>\<open>pkgs\<close>.
\<close>

record world =
  env_Glob :: "string list"
  env_manifest :: "string \<Rightarrow> manifest"
  env_pick :: "int \<Rightarrow> nat"
  env_http_Get :: "nat \<Rightarrow> string + string"
  env_package_versions :: "nat \<Rightarrow> string \<Rightarrow> string + string"
  env_Join :: "string \<Rightarrow> string \<Rightarrow> string"
  env_Getwd :: string
  env_download :: "nat \<Rightarrow> download_io"
  env_user_Current :: "string option"
  env_package_add_version :: "nat \<Rightarrow> string \<Rightarrow> string + string"
  env_sched :: "nat \<Rightarrow> nat"

datatype task =
  Decode string | Validate nat | Assess nat | Download nat | Upload nat string

section \<open>Collecting the packages\<close>

text \<open>
  \<^verbatim>\<open>GetAllPackages\<close>: one decoding task per match, registered with the pool, then the
  receiving loop, which appends every value received to \<^verbatim>\<open>pkgs\<close>. The result is \<open>None\<close>
  when the loop blocks.
\<close>

definition GetAllPackages :: "world \<Rightarrow> Futures \<Rightarrow> (Package list \<times> Futures) option" where
  "GetAllPackages w futures =
     (let futures1 =
            foldl (\<lambda>f v. AddFuture f (snd (decodeJsonFile v (env_manifest w v)))) futures (env_Glob w)
      in case recv_loop (env_pick w) (ItemsInChannels futures1) (Channels futures1) [] of
           None \<Rightarrow> None
         | Some (n, chan, pkgs) \<Rightarrow> Some (pkgs, \<lparr>Channels = chan, ItemsInChannels = n\<rparr>))"

section \<open>The stages of \<^verbatim>\<open>main\<close>\<close>

text \<open>
  A loop \<^verbatim>\<open>for _, p := range pkgs { ... }\<close> of \<^verbatim>\<open>main\<close> whose body works on \<^verbatim>\<open>p\<close> alone.
  \<open>body i p\<close> gives the record after the iteration and the tasks the iteration has
  registered with \<^verbatim>\<open>futures.AddFuture\<close>, each with the values it sends on its future.
  In the validation, assessment and download stages every task works on the record of
  its own iteration and \<^verbatim>\<open>main\<close> reads no field that a task of the same stage writes, so
  the task is run where it is started.
\<close>

fun range_pkgs ::
  "(nat \<Rightarrow> Package \<Rightarrow> Package \<times> (task \<times> Package list) list) \<Rightarrow>
   nat \<Rightarrow> Package list \<Rightarrow> Futures \<Rightarrow> Package list \<times> Futures \<times> task list" where
  "range_pkgs body i [] futures = ([], futures, [])"
| "range_pkgs body i (p # ps) futures =
     (let (p', started) = body i p;
          futures' = foldl AddFuture futures (map snd started);
          (ps', futures'', ts) = range_pkgs body (Suc i) ps futures'
      in (p' # ps', futures'', map fst started @ ts))"

definition validate_body :: "world \<Rightarrow> nat \<Rightarrow> Package \<Rightarrow> Package \<times> (task \<times> Package list) list" where
  "validate_body w i p =
     (let (p', future) = CheckIfValidPackage p (env_http_Get w i)
      in (p', [(Validate i, future)]))"

definition assess_body :: "world \<Rightarrow> nat \<Rightarrow> Package \<Rightarrow> Package \<times> (task \<times> Package list) list" where
  "assess_body w i p =
     (if Valid p
      then (let (p', future) = IsUpdateNeeded p (env_package_versions w i)
            in (p', [(Assess i, future)]))
      else (p, []))"

text \<open>
  The inner loop of the download stage over the clusters, with its \<^verbatim>\<open>break\<close>: the first
  cluster whose flag is set starts the download and ends the loop.
\<close>

fun download_scan ::
  "world \<Rightarrow> nat \<Rightarrow> Package \<Rightarrow> string list \<Rightarrow> Package \<times> (task \<times> Package list) list" where
  "download_scan w i p [] = (p, [])"
| "download_scan w i p (cluster # clusters) =
     (if map_get (NeedUpdate p) cluster
      then (let (p', future) =
                  DownloadArtifact (env_Join w) p (env_Join w (env_Getwd w) ''downloads_tmp'')
                    (env_download w i)
            in (p', [(Download i, future)]))
      else download_scan w i p clusters)"

definition download_body :: "world \<Rightarrow> nat \<Rightarrow> Package \<Rightarrow> Package \<times> (task \<times> Package list) list" where
  "download_body w i p = download_scan w i p AllClusters"

section \<open>The upload stage, with its interleavings\<close>

text \<open>
  In the upload stage \<^verbatim>\<open>main\<close> itself writes the record at every call of
  \<^verbatim>\<open>UpdatePackage\<close> (the fresh map), and several tasks work on one record, so the order of
  the steps matters. A state holds the records, the pool, the iterations of the two
  nested loops that \<^verbatim>\<open>main\<close> has still to run, and the goroutines that are started and
  have not yet written their outcome. At step \<open>k\<close> the scheduler's choice \<open>env_sched w k\<close>
  selects either the next iteration of \<^verbatim>\<open>main\<close> or one of the started goroutines.
\<close>

record upload_state =
  us_pkgs :: "Package list"
  us_futures :: Futures
  us_todo :: "(nat \<times> string) list"
  us_active :: "(nat \<times> string) list"
  us_spawned :: "task list"

datatype upload_progress = Quiescent | Panics | Steps upload_state

definition upload_main_step :: "upload_state \<Rightarrow> upload_state" where
  "upload_main_step s =
     (case us_todo s of
        [] \<Rightarrow> s
      | (i, cluster) # rest \<Rightarrow>
          if map_get (NeedUpdate (us_pkgs s ! i)) cluster
          then s\<lparr>us_pkgs := (us_pkgs s)[i := UpdatePackage_make (us_pkgs s ! i)],
                 us_futures := AddFuture (us_futures s) [],
                 us_todo := rest,
                 us_active := us_active s @ [(i, cluster)],
                 us_spawned := us_spawned s @ [Upload i cluster]\<rparr>
          else s\<lparr>us_todo := rest\<rparr>)"

definition upload_task_step :: "world \<Rightarrow> nat \<Rightarrow> upload_state \<Rightarrow> upload_progress" where
  "upload_task_step w j s =
     (let (i, cluster) = us_active s ! j
      in case UpdatePackage_go (us_pkgs s ! i) cluster (env_user_Current w)
                (env_package_add_version w i cluster) of
           None \<Rightarrow> Panics
         | Some (p', sent) \<Rightarrow>
             Steps (s\<lparr>us_pkgs := (us_pkgs s)[i := p'],
                      us_futures := forward (us_futures s) sent,
                      us_active := take j (us_active s) @ drop (Suc j) (us_active s)\<rparr>))"

definition upload_step :: "world \<Rightarrow> nat \<Rightarrow> upload_state \<Rightarrow> upload_progress" where
  "upload_step w k s =
     (let main_ready = (if us_todo s = [] then 0 else 1 :: nat);
          ready = main_ready + length (us_active s)
      in if ready = 0 then Quiescent
         else (let choice = env_sched w k mod ready
               in if choice < main_ready then Steps (upload_main_step s)
                  else upload_task_step w (choice - main_ready) s))"

function upload_run :: "world \<Rightarrow> nat \<Rightarrow> upload_state \<Rightarrow> upload_state + upload_state" where
  "upload_run w k s =
     (case upload_step w k s of
        Quiescent \<Rightarrow> Inr s
      | Panics \<Rightarrow> Inl s
      | Steps s' \<Rightarrow> upload_run w (Suc k) s')"
  by pat_completeness auto
termination
proof (relation "measure (\<lambda>(w, k, s). 2 * length (us_todo s) + length (us_active s))")
  show "wf (measure (\<lambda>(w, k, s). 2 * length (us_todo s) + length (us_active s)))"
    by simp
next
  fix w :: world and k :: nat and s s' :: upload_state
  assume step: "upload_step w k s = Steps s'"
  have "2 * length (us_todo s') + length (us_active s') <
        2 * length (us_todo s) + length (us_active s)"
  proof (cases "env_sched w k mod ((if us_todo s = [] then 0 else 1) + length (us_active s))
                  < (if us_todo s = [] then 0 else 1)")
    case True
    then have todo: "us_todo s \<noteq> []" by (auto split: if_splits)
    with True step have "s' = upload_main_step s"
      by (auto simp: upload_step_def Let_def split: if_splits)
    with todo show ?thesis
      by (auto simp: upload_main_step_def split: list.splits prod.splits)
  next
    case False
    with step have ts: "upload_task_step w
        (env_sched w k mod ((if us_todo s = [] then 0 else 1) + length (us_active s))
           - (if us_todo s = [] then 0 else 1)) s = Steps s'"
      and ready: "(if us_todo s = [] then 0 else 1 :: nat) + length (us_active s) \<noteq> 0"
      by (auto simp: upload_step_def Let_def split: if_splits)
    define j where "j = env_sched w k mod ((if us_todo s = [] then 0 else 1) + length (us_active s))
           - (if us_todo s = [] then 0 else 1)"
    have "env_sched w k mod ((if us_todo s = [] then 0 else 1) + length (us_active s))
            < (if us_todo s = [] then 0 else 1) + length (us_active s)"
      using ready by (intro mod_less_divisor) auto
    with False have j: "j < length (us_active s)"
      unfolding j_def by (auto split: if_splits)
    from ts have "us_todo s' = us_todo s"
      and "us_active s' = take j (us_active s) @ drop (Suc j) (us_active s)"
      unfolding j_def [symmetric]
      by (auto simp: upload_task_step_def Let_def split: prod.splits option.splits)
    with j show ?thesis by auto
  qed
  then show "((w, Suc k, s'), (w, k, s))
      \<in> measure (\<lambda>(w, k, s). 2 * length (us_todo s) + length (us_active s))"
    by simp
qed

text \<open>
  The two nested loops of the upload stage visit every package and, for each, every
  cluster of \<^verbatim>\<open>AllClusters\<close>, in this order.
\<close>

definition upload_iterations :: "nat \<Rightarrow> (nat \<times> string) list" where
  "upload_iterations n = concat (map (\<lambda>i. map (\<lambda>cluster. (i, cluster)) AllClusters) [0..<n])"

definition upload_init :: "Package list \<Rightarrow> Futures \<Rightarrow> upload_state" where
  "upload_init ps futures =
     \<lparr>us_pkgs = ps, us_futures = futures, us_todo = upload_iterations (length ps),
      us_active = [], us_spawned = []\<rparr>"

section \<open>The driver\<close>

text \<open>
  How a run ends: \<^verbatim>\<open>log.Fatal\<close> with its message, \<^verbatim>\<open>os.Exit\<close> with its code, the normal
  return of \<^verbatim>\<open>main\<close>, a call of \<^verbatim>\<open>BlockUntilComplete\<close> (named by its argument) that never
  returns, or a panic. A run also records the tasks it has started, in order, and the
  records as they are at the end.
\<close>

datatype outcome = Fatal string | Exit int | Returned | Blocked string | Panicked

record run =
  run_spawned :: "task list"
  run_result :: outcome
  run_pkgs :: "Package list"

definition main_upload :: "world \<Rightarrow> Package list \<Rightarrow> Futures \<Rightarrow> task list \<Rightarrow> run" where
  "main_upload w ps futures ts =
     (case upload_run w 0 (upload_init ps futures) of
        Inl s \<Rightarrow> \<lparr>run_spawned = ts @ us_spawned s, run_result = Panicked, run_pkgs = us_pkgs s\<rparr>
      | Inr s \<Rightarrow>
          (case BlockUntilComplete (env_pick w) (us_futures s) of
             None \<Rightarrow> \<lparr>run_spawned = ts @ us_spawned s,
                       run_result = Blocked ''Updating packages'', run_pkgs = us_pkgs s\<rparr>
           | Some futures' \<Rightarrow>
               \<lparr>run_spawned = ts @ us_spawned s, run_result = Returned, run_pkgs = us_pkgs s\<rparr>))"

definition main_download :: "world \<Rightarrow> Package list \<Rightarrow> Futures \<Rightarrow> task list \<Rightarrow> run" where
  "main_download w ps futures ts =
     (let (ps', futures', ts') = range_pkgs (download_body w) 0 ps futures
      in if 0 < ItemsInChannels futures'
         then (case BlockUntilComplete (env_pick w) futures' of
                 None \<Rightarrow> \<lparr>run_spawned = ts @ ts',
                           run_result = Blocked ''Downloading packages'', run_pkgs = ps'\<rparr>
               | Some futures'' \<Rightarrow> main_upload w ps' futures'' (ts @ ts'))
         else \<lparr>run_spawned = ts @ ts', run_result = Exit 0, run_pkgs = ps'\<rparr>)"

definition main_assess :: "world \<Rightarrow> Package list \<Rightarrow> Futures \<Rightarrow> task list \<Rightarrow> run" where
  "main_assess w ps futures ts =
     (let (ps', futures', ts') = range_pkgs (assess_body w) 0 ps futures
      in if 0 < ItemsInChannels futures'
         then (case BlockUntilComplete (env_pick w) futures' of
                 None \<Rightarrow> \<lparr>run_spawned = ts @ ts',
                           run_result = Blocked ''Checking which packer clusters need to be updated'',
                           run_pkgs = ps'\<rparr>
               | Some futures'' \<Rightarrow> main_download w ps' futures'' (ts @ ts'))
         else \<lparr>run_spawned = ts @ ts', run_result = Fatal ''Unable to process any projects!'',
               run_pkgs = ps'\<rparr>)"

definition main_validate :: "world \<Rightarrow> Package list \<Rightarrow> Futures \<Rightarrow> task list \<Rightarrow> run" where
  "main_validate w ps futures ts =
     (let (ps', futures', ts') = range_pkgs (validate_body w) 0 ps futures
      in case BlockUntilComplete (env_pick w) futures' of
           None \<Rightarrow> \<lparr>run_spawned = ts @ ts',
                     run_result = Blocked ''Checking validity of packages'', run_pkgs = ps'\<rparr>
         | Some futures'' \<Rightarrow> main_assess w ps' futures'' (ts @ ts'))"

definition main :: "world \<Rightarrow> run" where
  "main w =
     (let futures = \<lparr>Channels = [], ItemsInChannels = 0\<rparr>;
          ts = map Decode (env_Glob w)
      in case GetAllPackages w futures of
           None \<Rightarrow> \<lparr>run_spawned = ts, run_result = Blocked ''GetAllPackages'', run_pkgs = []\<rparr>
         | Some (ps, futures') \<Rightarrow>
             if length ps < 1
             then \<lparr>run_spawned = ts, run_result = Fatal ''No packages found'', run_pkgs = ps\<rparr>
             else main_validate w ps futures' ts)"

section \<open>Notions used in the statements\<close>

text \<open>The pool as \<^verbatim>\<open>main\<close> creates it, and as every completed drain leaves it.\<close>

definition no_futures :: Futures where
  "no_futures = \<lparr>Channels = [], ItemsInChannels = 0\<rparr>"

text \<open>
  The validity rule in the words of the specification: the probe succeeds and reports one
  of the three archive content types.
\<close>

definition probe_ok :: "string + string \<Rightarrow> bool" where
  "probe_ok response =
     (case response of
        Inl err \<Rightarrow> False
      | Inr content_type \<Rightarrow>
          content_type = ''application/x-compressed'' \<or> content_type = ''application/x-gzip''
          \<or> content_type = ''application/zip'')"

text \<open>
  The revision tokens in the words of the specification: a token is a text of 40
  characters, each a digit or a letter from \<^verbatim>\<open>a\<close> to \<^verbatim>\<open>f\<close>, and a text holds a token when
  a token starts at one of its positions.
\<close>

definition hex40 :: "string \<Rightarrow> bool" where
  "hex40 t = (length t = 40 \<and> list_all (\<lambda>c. c \<in> set ''0123456789abcdef'') t)"

definition holds_token :: "string \<Rightarrow> bool" where
  "holds_token s = list_ex (\<lambda>i. hex40 (take 40 (drop i s))) [0..<Suc (length s)]"

text \<open>
  The value that a Go \<^verbatim>\<open>int\<close> (64 bits, two's complement) holds after an arithmetic
  operation whose exact result is \<open>x\<close>.
\<close>

definition int64_wrap :: "int \<Rightarrow> int" where
  "int64_wrap x = (x + 2 ^ 63) mod 2 ^ 64 - 2 ^ 63"

text \<open>A package is stale when the flag of some cluster of \<^verbatim>\<open>AllClusters\<close> is set.\<close>

definition stale :: "Package \<Rightarrow> bool" where
  "stale p = list_ex (map_get (NeedUpdate p)) AllClusters"

text \<open>A download gives up when one of its four calls fails (an existing directory is no failure).\<close>

definition gives_up :: "download_io \<Rightarrow> bool" where
  "gives_up io =
     ((case MkdirAll_err io of None \<Rightarrow> False | Some (err, is_exist) \<Rightarrow> \<not> is_exist)
      \<or> Create_err io \<noteq> None \<or> Get_err io \<noteq> None \<or> Copy_err io \<noteq> None)"

text \<open>The records of a run after the collection, validation and assessment stages.\<close>

definition found :: "world \<Rightarrow> Package list" where
  "found w = (case GetAllPackages w no_futures of None \<Rightarrow> [] | Some (ps, futures) \<Rightarrow> ps)"

definition validated :: "world \<Rightarrow> Package list" where
  "validated w = fst (range_pkgs (validate_body w) 0 (found w) no_futures)"

definition assessed :: "world \<Rightarrow> Package list" where
  "assessed w = fst (range_pkgs (assess_body w) 0 (validated w) no_futures)"

text \<open>
  For the upload stage: whether an iteration \<open>(i, cluster)\<close> of the two nested loops
  finds the flag set, the task it then starts, and a record without its \<^verbatim>\<open>Updated\<close> map
  (the only field the upload stage writes).
\<close>

definition wants :: "Package list \<Rightarrow> nat \<times> string \<Rightarrow> bool" where
  "wants ps ic = map_get (NeedUpdate (ps ! fst ic)) (snd ic)"

definition upload_task :: "nat \<times> string \<Rightarrow> task" where
  "upload_task ic = Upload (fst ic) (snd ic)"

definition frame :: "Package \<Rightarrow> Package" where
  "frame p = p\<lparr>Updated := Map.empty\<rparr>"

text \<open>The state of the upload stage after \<open>n\<close> steps, the first of them step \<open>k\<close>.\<close>

fun upload_after :: "world \<Rightarrow> nat \<Rightarrow> nat \<Rightarrow> upload_state \<Rightarrow> upload_state" where
  "upload_after w k 0 s = s"
| "upload_after w k (Suc n) s =
     (case upload_step w k s of
        Steps s' \<Rightarrow> upload_after w (Suc k) n s'
      | Quiescent \<Rightarrow> s
      | Panics \<Rightarrow> s)"

text \<open>
  The assignments to \<^verbatim>\<open>p.Valid\<close> that the goroutine of \<^verbatim>\<open>CheckIfValidPackage\<close> executes,
  in order: \<^verbatim>\<open>p.Valid = false\<close> first, and \<^verbatim>\<open>p.Valid = true\<close> inside the \<^verbatim>\<open>if\<close>.
\<close>

definition Valid_writes :: "string + string \<Rightarrow> bool list" where
  "Valid_writes response =
     False #
     (case response of
        Inl err \<Rightarrow> []
      | Inr content_type \<Rightarrow>
          if stringInArray content_type acceptableMIMETypes then [True] else [])"

text \<open>
  The tasks that \<^verbatim>\<open>main\<close> has started when it comes to the upload stage, or when it ends
  before.
\<close>

definition tasks_before_upload :: "world \<Rightarrow> task list" where
  "tasks_before_upload w =
     map Decode (env_Glob w)
     @ map (\<lambda>(i, p). Validate i) (enumerate 0 (found w))
     @ map (\<lambda>(i, p). Assess i) (filter (\<lambda>(i, p). Valid p) (enumerate 0 (validated w)))
     @ (if list_ex Valid (validated w)
        then map (\<lambda>(i, p). Download i) (filter (\<lambda>(i, p). stale p) (enumerate 0 (assessed w)))
        else [])"

text \<open>The records that enter the upload stage.\<close>

definition downloaded :: "world \<Rightarrow> Package list" where
  "downloaded w = fst (range_pkgs (download_body w) 0 (assessed w) no_futures)"

section \<open>Example runs\<close>

text \<open>
  Two manifests. \<^verbatim>\<open>config/web.json\<close> names a gzip archive. \<^verbatim>\<open>config/api.json\<close> names a
  text file, and its JSON object also has a member \<^verbatim>\<open>"NeedUpdate": {"atla": true}\<close>,
  which the decoder stores in the field of that name. The query tool fails for every
  cluster and the uploads succeed. The outcome of the downloads and the scheduler of the
  upload stage are parameters.
\<close>

definition demo_web :: Package where
  "demo_web = zero_Package\<lparr>Artifact := ''http://ci/web.tgz'', Revision := ''r2''\<rparr>"

definition demo_api :: Package where
  "demo_api = zero_Package\<lparr>Artifact := ''http://ci/api.txt'', Revision := ''r7'',
                           NeedUpdate := [''atla'' \<mapsto> True]\<rparr>"

definition demo_world :: "download_io \<Rightarrow> (nat \<Rightarrow> nat) \<Rightarrow> world" where
  "demo_world io sched =
     \<lparr>env_Glob = [''config/web.json'', ''config/api.json''],
      env_manifest = (\<lambda>v. if v = ''config/web.json'' then Decoded demo_web None
                           else Decoded demo_api None),
      env_pick = (\<lambda>n. 0),
      env_http_Get = (\<lambda>i. if i = 0 then Inr ''application/x-gzip'' else Inr ''text/plain''),
      env_package_versions = (\<lambda>i cluster. Inl ''exit status 1''),
      env_Join = (\<lambda>a b. a @ ''/'' @ b),
      env_Getwd = ''/srv'',
      env_download = (\<lambda>i. io),
      env_user_Current = Some ''deploy'',
      env_package_add_version = (\<lambda>i cluster. Inr ''added''),
      env_sched = sched\<rparr>"

text \<open>A download in which every call succeeds, and one whose \<^verbatim>\<open>http.Get\<close> fails.\<close>

definition io_ok :: download_io where
  "io_ok = \<lparr>MkdirAll_err = None, Create_err = None, Get_err = None, Copy_err = None\<rparr>"

definition io_fetch_fails :: download_io where
  "io_fetch_fails =
     \<lparr>MkdirAll_err = None, Create_err = None,
      Get_err = Some ''dial tcp: connection refused'', Copy_err = None\<rparr>"

text \<open>
  Two schedulers of the upload stage. \<open>finish_first\<close> lets the first upload task write
  its outcome before \<^verbatim>\<open>main\<close> goes on (step 1) and runs the other tasks when \<^verbatim>\<open>main\<close>
  has started them all; \<open>main_first\<close> runs every task after \<^verbatim>\<open>main\<close> has finished its
  loops.
\<close>

definition finish_first :: "nat \<Rightarrow> nat" where
  "finish_first k = (if k = 1 then 1 else 0)"

definition main_first :: "nat \<Rightarrow> nat" where
  "main_first k = 0"

section \<open>What the revision pattern finds\<close>

lemma slice_last: "xs \<noteq> [] \<Longrightarrow> slice xs (length xs - 1) (length xs) ! 0 = last xs"
  by (cases xs rule: rev_cases) (simp_all add: slice_def)

lemma sha_at_split:
  assumes "sha_at s"
  shows "s = take 40 s @ drop 40 s \<and> length (take 40 s) = 40 \<and> list_all sha_char (take 40 s)"
  using assms by (simp add: sha_at_def)

text \<open>Every match is a run of 40 characters of \<^verbatim>\<open>[0-9a-f]\<close> that occurs in the text.\<close>

lemma FindAllString_tokens:
  "t \<in> set (FindAllString s) \<Longrightarrow>
     length t = 40 \<and> list_all sha_char t \<and> (\<exists>pre post. s = pre @ t @ post)"
proof (induction s rule: FindAllString.induct)
  case 1
  then show ?case by simp
next
  case (2 c cs)
  show ?case
  proof (cases "sha_at (c # cs)")
    case True
    note at = sha_at_split [OF True]
    from 2(3) True have "t = take 40 (c # cs) \<or> t \<in> set (FindAllString (drop 39 cs))"
      by simp
    then show ?thesis
    proof
      assume t: "t = take 40 (c # cs)"
      have "c # cs = [] @ t @ drop 40 (c # cs)" using at t by simp
      then show ?thesis using at t by blast
    next
      assume "t \<in> set (FindAllString (drop 39 cs))"
      with 2(1) True obtain pre post where
        t: "length t = 40" "list_all sha_char t" and d: "drop 39 cs = pre @ t @ post"
        by blast
      have "drop 40 (c # cs) = drop 39 cs" by simp
      with at d have "c # cs = (take 40 (c # cs) @ pre) @ t @ post"
        by (metis append.assoc)
      with t show ?thesis by blast
    qed
  next
    case False
    with 2(3) have "t \<in> set (FindAllString cs)" by simp
    with 2(2) False obtain pre post where
      t: "length t = 40" "list_all sha_char t" and d: "cs = pre @ t @ post"
      by blast
    then have "c # cs = (c # pre) @ t @ post" by simp
    with t show ?thesis by blast
  qed
qed

text \<open>A text that holds such a run anywhere has at least one match.\<close>

lemma FindAllString_finds:
  "length t = 40 \<Longrightarrow> list_all sha_char t \<Longrightarrow> FindAllString (pre @ t @ post) \<noteq> []"
proof (induction pre)
  case Nil
  then have "sha_at (t @ post)" by (simp add: sha_at_def)
  moreover from Nil obtain c cs where "t @ post = c # cs" by (cases t) auto
  ultimately show ?case by simp
next
  case (Cons a pre)
  then show ?case by simp
qed

lemma FindAllString_empty_iff:
  "FindAllString s = [] \<longleftrightarrow>
     \<not> (\<exists>pre t post. s = pre @ t @ post \<and> length t = 40 \<and> list_all sha_char t)"
proof
  assume e: "FindAllString s = []"
  show "\<not> (\<exists>pre t post. s = pre @ t @ post \<and> length t = 40 \<and> list_all sha_char t)"
    using e FindAllString_finds by blast
next
  assume n: "\<not> (\<exists>pre t post. s = pre @ t @ post \<and> length t = 40 \<and> list_all sha_char t)"
  show "FindAllString s = []"
  proof (rule ccontr)
    assume "FindAllString s \<noteq> []"
    then obtain t where "t \<in> set (FindAllString s)" by (cases "FindAllString s") auto
    from FindAllString_tokens [OF this] n show False by blast
  qed
qed

text \<open>
  The same in the words of the specification: a text holds a token exactly when a run of
  40 characters of \<^verbatim>\<open>[0-9a-f]\<close> occurs in it, and the scan finds nothing exactly in the
  texts that hold no token.
\<close>

lemma hex40_iff: "hex40 t \<longleftrightarrow> length t = 40 \<and> list_all sha_char t"
  unfolding hex40_def sha_char_def [abs_def] by (rule refl)

lemma holds_token_iff:
  "holds_token s \<longleftrightarrow> (\<exists>pre t post. s = pre @ t @ post \<and> hex40 t)"
proof
  assume "holds_token s"
  then obtain i where h: "hex40 (take 40 (drop i s))"
    unfolding holds_token_def list_ex_iff by blast
  have "s = take i s @ take 40 (drop i s) @ drop 40 (drop i s)"
    by (simp only: append_take_drop_id)
  with h show "\<exists>pre t post. s = pre @ t @ post \<and> hex40 t" by blast
next
  assume "\<exists>pre t post. s = pre @ t @ post \<and> hex40 t"
  then obtain pre t post where s: "s = pre @ t @ post" and h: "hex40 t" by blast
  from h have "length t = 40" by (simp add: hex40_def)
  with s have "take 40 (drop (length pre) s) = t" by simp
  moreover from s have "length pre < Suc (length s)" by simp
  ultimately show "holds_token s"
    using h unfolding holds_token_def list_ex_iff by (metis atLeastLessThan_iff set_upt zero_le)
qed

lemma FindAllString_empty_holds: "FindAllString s = [] \<longleftrightarrow> \<not> holds_token s"
  by (simp add: FindAllString_empty_iff holds_token_iff hex40_iff)

lemma sha_at_prefix:
  assumes "40 \<le> length xs"
  shows "sha_at (xs @ ys) = sha_at xs"
  using assms by (simp add: sha_at_def)

lemma take_drop_append: "take n t @ drop n t @ post = t @ post"
  by (simp add: append_assoc [symmetric] del: append_assoc)

text \<open>The scan takes the leftmost token and goes on behind it.\<close>

lemma FindAllString_leftmost:
  assumes "hex40 t"
  shows "\<not> holds_token (pre @ take 39 t) \<Longrightarrow> FindAllString (pre @ t @ post) = t # FindAllString post"
proof (induction pre)
  case Nil
  from assms have l: "length t = 40" and a: "list_all sha_char t" by (simp_all add: hex40_iff)
  from l obtain c cs where c: "t @ post = c # cs" by (cases t) auto
  have at: "sha_at (c # cs)" unfolding c [symmetric] using l a by (simp add: sha_at_def)
  have tk: "take 40 (c # cs) = t" unfolding c [symmetric] using l by simp
  have "drop 40 (c # cs) = post" unfolding c [symmetric] using l by simp
  then have dr: "drop 39 cs = post" by simp
  have "FindAllString (c # cs) = t # FindAllString post"
    by (simp only: FindAllString.simps(2) at tk dr if_True)
  then show ?case by (simp only: append_Nil c)
next
  case (Cons a pre)
  from assms have l: "length t = 40" by (simp add: hex40_iff)
  let ?short = "(a # pre) @ take 39 t"
  from l have len: "40 \<le> length ?short" by simp
  from Cons.prems have e: "FindAllString ?short = []" using FindAllString_empty_holds by blast
  have ns: "\<not> sha_at (a # pre @ take 39 t)"
  proof
    assume "sha_at (a # pre @ take 39 t)"
    then have "FindAllString (a # pre @ take 39 t) \<noteq> []" by (simp only: FindAllString.simps(2) if_True) simp
    with e show False by simp
  qed
  have "sha_at (?short @ (drop 39 t @ post)) = sha_at ?short"
    by (rule sha_at_prefix [OF len])
  then have "sha_at (a # pre @ t @ post) = sha_at (a # pre @ take 39 t)"
    by (simp add: take_drop_append)
  with ns have n: "\<not> sha_at (a # pre @ t @ post)" by simp
  from e have "FindAllString (a # pre @ take 39 t) = []" by simp
  with ns have "FindAllString (pre @ take 39 t) = []" by (simp only: FindAllString.simps(2) if_False)
  then have "\<not> holds_token (pre @ take 39 t)" using FindAllString_empty_holds by blast
  from Cons.IH [OF this] have ih: "FindAllString (pre @ t @ post) = t # FindAllString post" .
  have "FindAllString (a # pre @ t @ post) = t # FindAllString post"
    using n ih by (simp only: FindAllString.simps(2) if_False)
  then show ?case by simp
qed

text \<open>The last match is a token of the text with no token behind it.\<close>

lemma FindAllString_last:
  "FindAllString s \<noteq> [] \<Longrightarrow>
     \<exists>pre post. s = pre @ last (FindAllString s) @ post \<and> hex40 (last (FindAllString s))
        \<and> \<not> holds_token post"
proof (induction s rule: FindAllString.induct)
  case 1
  then show ?case by simp
next
  case (2 c cs)
  show ?case
  proof (cases "sha_at (c # cs)")
    case True
    note at = sha_at_split [OF True]
    have d: "drop 40 (c # cs) = drop 39 cs" by simp
    show ?thesis
    proof (cases "FindAllString (drop 39 cs) = []")
      case e: True
      with True have la: "last (FindAllString (c # cs)) = take 40 (c # cs)" by simp
      have "c # cs = [] @ take 40 (c # cs) @ drop 39 cs" using at d by simp
      moreover have "hex40 (take 40 (c # cs))" using at by (simp add: hex40_iff)
      moreover have "\<not> holds_token (drop 39 cs)" using e by (simp add: FindAllString_empty_holds)
      ultimately show ?thesis unfolding la by blast
    next
      case ne: False
      with True have la: "last (FindAllString (c # cs)) = last (FindAllString (drop 39 cs))"
        by simp
      from 2(1) [OF True ne] obtain pre post where
        s: "drop 39 cs = pre @ last (FindAllString (drop 39 cs)) @ post"
        and h: "hex40 (last (FindAllString (drop 39 cs)))" and n: "\<not> holds_token post"
        by blast
      from at d s have "c # cs = (take 40 (c # cs) @ pre) @ last (FindAllString (drop 39 cs)) @ post"
        by (metis append.assoc)
      with h n show ?thesis unfolding la by blast
    qed
  next
    case False
    with 2(3) have ne: "FindAllString cs \<noteq> []" by simp
    from False have la: "last (FindAllString (c # cs)) = last (FindAllString cs)" by simp
    from 2(2) [OF False ne] obtain pre post where
      s: "cs = pre @ last (FindAllString cs) @ post"
      and h: "hex40 (last (FindAllString cs))" and n: "\<not> holds_token post"
      by blast
    from s have "c # cs = (c # pre) @ last (FindAllString cs) @ post" by simp
    with h n show ?thesis unfolding la by blast
  qed
qed



section \<open>The need-update decision\<close>

text \<open>
  The assessment task stores, for every cluster of \<^verbatim>\<open>AllClusters\<close> and for no other key,
  the answer of \<^verbatim>\<open>clusterOkToUpdate\<close> for that cluster.
\<close>

lemma clusterOkToUpdate_cong:
  "Project q = Project p \<Longrightarrow> Revision q = Revision p \<Longrightarrow>
     clusterOkToUpdate q cluster run = clusterOkToUpdate p cluster run"
  by (cases run) (simp_all add: clusterOkToUpdate_def Let_def)

lemma IsUpdateNeeded_go_flags:
  "Project (IsUpdateNeeded_go query p clusters) = Project p
   \<and> Revision (IsUpdateNeeded_go query p clusters) = Revision p
   \<and> NeedUpdate (IsUpdateNeeded_go query p clusters) cluster =
       (if cluster \<in> set clusters then Some (fst (clusterOkToUpdate p cluster (query cluster)))
        else NeedUpdate p cluster)"
proof (induction clusters arbitrary: p)
  case Nil
  show ?case by (simp add: IsUpdateNeeded_go_def)
next
  case (Cons c clusters)
  let ?q = "p\<lparr>NeedUpdate := (NeedUpdate p)(c \<mapsto> fst (clusterOkToUpdate p c (query c)))\<rparr>"
  have unfold: "IsUpdateNeeded_go query p (c # clusters) = IsUpdateNeeded_go query ?q clusters"
    by (simp add: IsUpdateNeeded_go_def)
  have same: "clusterOkToUpdate ?q x r = clusterOkToUpdate p x r" for x r
    by (rule clusterOkToUpdate_cong) simp_all
  from Cons [of ?q] show ?case unfolding unfold by (simp add: same)
qed

lemma IsUpdateNeeded_flags:
  "NeedUpdate (fst (IsUpdateNeeded p query)) cluster =
     (if cluster \<in> set AllClusters then Some (fst (clusterOkToUpdate p cluster (query cluster)))
      else None)"
proof -
  have "clusterOkToUpdate (p\<lparr>NeedUpdate := Map.empty\<rparr>) cluster (query cluster) =
        clusterOkToUpdate p cluster (query cluster)"
    by (rule clusterOkToUpdate_cong) simp_all
  with IsUpdateNeeded_go_flags [of query "p\<lparr>NeedUpdate := Map.empty\<rparr>" AllClusters cluster]
  show ?thesis by (simp add: IsUpdateNeeded_def Let_def)
qed

lemma clusterOkToUpdate_Inr:
  "fst (clusterOkToUpdate p cluster (Inr out)) =
     (FindAllString out = [] \<or> last (FindAllString out) \<noteq> Revision p)"
proof (cases "FindAllString out = []")
  case True
  then show ?thesis by (simp add: clusterOkToUpdate_def)
next
  case False
  then have "0 < length (FindAllString out)" by simp
  with False slice_last [OF False] show ?thesis
    by (auto simp: clusterOkToUpdate_def Let_def)
qed


text \<open>
  Claim C4. For a package and a cluster, \<^verbatim>\<open>clusterOkToUpdate\<close> answers "needs update"
  when the query tool fails; "needs update" when its output holds no revision token;
  "no update needed" when there is a token and the last one is the declared revision;
  and "needs update" when there is a token and the last one differs. The assessment task
  records this answer as the flag of the cluster, for each cluster of \<^verbatim>\<open>AllClusters\<close>
  separately.

  The tokens are the 40-character runs of \<^verbatim>\<open>[0-9a-f]\<close> of the output: the scan finds
  nothing exactly when the output holds no such run (\<open>holds_token\<close>); it takes the
  leftmost run first and goes on behind it; so an output without a run needs an update,
  and for an output with a run the last match is a run of the output with no run behind
  it, and the answer is whether that run differs from the declared revision.
\<close>

theorem clusterOkToUpdate_decision:
  "(\<forall>err. run = Inl err \<longrightarrow> fst (clusterOkToUpdate p cluster run)) \<and>
   (\<forall>out. run = Inr out \<and> FindAllString out = [] \<longrightarrow> fst (clusterOkToUpdate p cluster run)) \<and>
   (\<forall>out. run = Inr out \<and> FindAllString out \<noteq> [] \<and> last (FindAllString out) = Revision p
        \<longrightarrow> \<not> fst (clusterOkToUpdate p cluster run)) \<and>
   (\<forall>out. run = Inr out \<and> FindAllString out \<noteq> [] \<and> last (FindAllString out) \<noteq> Revision p
        \<longrightarrow> fst (clusterOkToUpdate p cluster run)) \<and>
   NeedUpdate (fst (IsUpdateNeeded p query)) cluster =
     (if cluster \<in> set AllClusters then Some (fst (clusterOkToUpdate p cluster (query cluster)))
      else None) \<and>
   (\<forall>out. (FindAllString out = []) = (\<not> holds_token out)) \<and>
   (\<forall>pre t post. hex40 t \<and> \<not> holds_token (pre @ take 39 t)
        \<longrightarrow> FindAllString (pre @ t @ post) = t # FindAllString post) \<and>
   (\<forall>out. run = Inr out \<and> \<not> holds_token out \<longrightarrow> fst (clusterOkToUpdate p cluster run)) \<and>
   (\<forall>out. run = Inr out \<and> holds_token out \<longrightarrow>
      (\<exists>pre post. out = pre @ last (FindAllString out) @ post
         \<and> hex40 (last (FindAllString out)) \<and> \<not> holds_token post
         \<and> fst (clusterOkToUpdate p cluster run) = (last (FindAllString out) \<noteq> Revision p)))"
proof (intro conjI allI impI)
  fix err assume "run = Inl err"
  then show "fst (clusterOkToUpdate p cluster run)" by (simp add: clusterOkToUpdate_def)
next
  fix out assume "run = Inr out \<and> FindAllString out = []"
  then show "fst (clusterOkToUpdate p cluster run)" by (simp add: clusterOkToUpdate_Inr)
next
  fix out
  assume "run = Inr out \<and> FindAllString out \<noteq> [] \<and> last (FindAllString out) = Revision p"
  then show "\<not> fst (clusterOkToUpdate p cluster run)" by (simp add: clusterOkToUpdate_Inr)
next
  fix out
  assume "run = Inr out \<and> FindAllString out \<noteq> [] \<and> last (FindAllString out) \<noteq> Revision p"
  then show "fst (clusterOkToUpdate p cluster run)" by (simp add: clusterOkToUpdate_Inr)
next
  show "NeedUpdate (fst (IsUpdateNeeded p query)) cluster =
     (if cluster \<in> set AllClusters then Some (fst (clusterOkToUpdate p cluster (query cluster)))
      else None)"
    by (rule IsUpdateNeeded_flags)
next
  fix out show "(FindAllString out = []) = (\<not> holds_token out)"
    by (rule FindAllString_empty_holds)
next
  fix pre t post assume "hex40 t \<and> \<not> holds_token (pre @ take 39 t)"
  then show "FindAllString (pre @ t @ post) = t # FindAllString post"
    using FindAllString_leftmost by blast
next
  fix out assume "run = Inr out \<and> \<not> holds_token out"
  then show "fst (clusterOkToUpdate p cluster run)"
    by (simp add: clusterOkToUpdate_Inr FindAllString_empty_holds)
next
  fix out assume a: "run = Inr out \<and> holds_token out"
  then have ne: "FindAllString out \<noteq> []" by (simp add: FindAllString_empty_holds)
  from FindAllString_last [OF ne] obtain pre post where
    "out = pre @ last (FindAllString out) @ post" "hex40 (last (FindAllString out))"
    "\<not> holds_token post"
    by blast
  moreover from a ne have
    "fst (clusterOkToUpdate p cluster run) = (last (FindAllString out) \<noteq> Revision p)"
    by (simp add: clusterOkToUpdate_Inr)
  ultimately show "\<exists>pre post. out = pre @ last (FindAllString out) @ post
         \<and> hex40 (last (FindAllString out)) \<and> \<not> holds_token post
         \<and> fst (clusterOkToUpdate p cluster run) = (last (FindAllString out) \<noteq> Revision p)"
    by blast
qed

lemma FindAllString_example_old_new:
  "FindAllString
     (''v1 0123456789abcdef0123456789abcdef01234567 v2 89abcdef0123456789abcdef0123456789abcdef'')
   = [''0123456789abcdef0123456789abcdef01234567'', ''89abcdef0123456789abcdef0123456789abcdef'']"
  by code_simp

lemma FindAllString_example_none: "FindAllString ''no versions found'' = []"
  by code_simp

lemma holds_token_example_none: "\<not> holds_token ''no versions found''"
  by code_simp

lemma holds_token_example_old_new:
  "holds_token ''v1 0123456789abcdef0123456789abcdef01234567 v2 89abcdef0123456789abcdef0123456789abcdef''"
  by code_simp

lemma hex40_example_old: "hex40 ''0123456789abcdef0123456789abcdef01234567''"
  by code_simp

lemma holds_token_example_short:
  "\<not> holds_token (''v1 '' @ take 39 ''0123456789abcdef0123456789abcdef01234567'')"
  by code_simp

lemma FindAllString_example_new:
  "FindAllString '' v2 89abcdef0123456789abcdef0123456789abcdef''
     = [''89abcdef0123456789abcdef0123456789abcdef'']"
  by code_simp

theorem clusterOkToUpdate_decision_witness:
  "fst (clusterOkToUpdate (zero_Package\<lparr>Revision := ''89abcdef0123456789abcdef0123456789abcdef''\<rparr>)
          ''atla'' (Inl ''exit status 1''))
   \<and> fst (clusterOkToUpdate (zero_Package\<lparr>Revision := ''89abcdef0123456789abcdef0123456789abcdef''\<rparr>)
          ''atla'' (Inr ''no versions found''))
   \<and> \<not> fst (clusterOkToUpdate (zero_Package\<lparr>Revision := ''89abcdef0123456789abcdef0123456789abcdef''\<rparr>)
          ''atla''
          (Inr ''v1 0123456789abcdef0123456789abcdef01234567 v2 89abcdef0123456789abcdef0123456789abcdef''))
   \<and> fst (clusterOkToUpdate (zero_Package\<lparr>Revision := ''0123456789abcdef0123456789abcdef01234567''\<rparr>)
          ''atla''
          (Inr ''v1 0123456789abcdef0123456789abcdef01234567 v2 89abcdef0123456789abcdef0123456789abcdef''))
   \<and> \<not> holds_token ''no versions found''
   \<and> holds_token ''v1 0123456789abcdef0123456789abcdef01234567 v2 89abcdef0123456789abcdef0123456789abcdef''
   \<and> (\<exists>pre post.
         ''v1 0123456789abcdef0123456789abcdef01234567 v2 89abcdef0123456789abcdef0123456789abcdef''
           = pre @ ''89abcdef0123456789abcdef0123456789abcdef'' @ post
         \<and> hex40 ''89abcdef0123456789abcdef0123456789abcdef'' \<and> \<not> holds_token post)
   \<and> FindAllString
         (''v1 '' @ ''0123456789abcdef0123456789abcdef01234567''
            @ '' v2 89abcdef0123456789abcdef0123456789abcdef'')
       = [''0123456789abcdef0123456789abcdef01234567'', ''89abcdef0123456789abcdef0123456789abcdef'']"
proof -
  let ?old = "''0123456789abcdef0123456789abcdef01234567''"
  let ?new = "''89abcdef0123456789abcdef0123456789abcdef''"
  let ?out = "''v1 0123456789abcdef0123456789abcdef01234567 v2 89abcdef0123456789abcdef0123456789abcdef''"
  let ?rest = "'' v2 89abcdef0123456789abcdef0123456789abcdef''"
  let ?p = "zero_Package\<lparr>Revision := ?new\<rparr>"
  let ?q = "zero_Package\<lparr>Revision := ?old\<rparr>"
  have found: "FindAllString ?out = [?old, ?new]"
    by (rule FindAllString_example_old_new)
  have ne: "FindAllString ?out \<noteq> []"
    unfolding found by (rule list.distinct(2))
  have la: "last (FindAllString ?out) = ?new"
    unfolding found by simp
  have rp: "Revision ?p = ?new" and rq: "Revision ?q = ?old"
    by simp_all
  have differ: "?new \<noteq> ?old" by code_simp
  note fails = clusterOkToUpdate_decision [of "Inl ''exit status 1''" ?p "''atla''"]
  note none = clusterOkToUpdate_decision [of "Inr ''no versions found''" ?p "''atla''"]
  note same = clusterOkToUpdate_decision [of "Inr ?out" ?p "''atla''"]
  note other = clusterOkToUpdate_decision [of "Inr ?out" ?q "''atla''"]
  have 1: "fst (clusterOkToUpdate ?p ''atla'' (Inl ''exit status 1''))"
    using fails [THEN conjunct1] by blast
  have 2: "fst (clusterOkToUpdate ?p ''atla'' (Inr ''no versions found''))"
    using none [THEN conjunct2, THEN conjunct2, THEN conjunct2, THEN conjunct2, THEN conjunct2,
        THEN conjunct2, THEN conjunct2, THEN conjunct1]
      holds_token_example_none by blast
  have 3: "\<not> fst (clusterOkToUpdate ?p ''atla'' (Inr ?out))"
    using same [THEN conjunct2, THEN conjunct2, THEN conjunct1] ne la rp by metis
  have 4: "fst (clusterOkToUpdate ?q ''atla'' (Inr ?out))"
    using other [THEN conjunct2, THEN conjunct2, THEN conjunct2, THEN conjunct1] ne la rq differ
    by metis
  have "\<exists>pre post. ?out = pre @ last (FindAllString ?out) @ post
          \<and> hex40 (last (FindAllString ?out)) \<and> \<not> holds_token post"
    using same [THEN conjunct2, THEN conjunct2, THEN conjunct2, THEN conjunct2, THEN conjunct2,
        THEN conjunct2, THEN conjunct2, THEN conjunct2]
      holds_token_example_old_new
    by blast
  then have 5: "\<exists>pre post. ?out = pre @ ?new @ post \<and> hex40 ?new \<and> \<not> holds_token post"
    unfolding la .
  have "FindAllString (''v1 '' @ ?old @ ?rest) = ?old # FindAllString ?rest"
    using same [THEN conjunct2, THEN conjunct2, THEN conjunct2, THEN conjunct2, THEN conjunct2,
        THEN conjunct2, THEN conjunct1]
      hex40_example_old holds_token_example_short
    by blast
  then have 6: "FindAllString (''v1 '' @ ?old @ ?rest) = [?old, ?new]"
    unfolding FindAllString_example_new .
  from 1 2 3 4 5 6 holds_token_example_none holds_token_example_old_new show ?thesis
    by (intro conjI)
qed

section \<open>The pool: receiving and counting\<close>

declare recv_loop.simps [simp del]

lemma chan_recv_Some:
  assumes "chan \<noteq> []"
  obtains v chan' where "chan_recv c chan = Some (v, chan')"
    and "mset chan = add_mset v (mset chan')" and "Suc (length chan') = length chan"
proof -
  let ?i = "c mod length chan"
  from assms have i: "?i < length chan" by simp
  have "chan = take ?i chan @ chan ! ?i # drop (Suc ?i) chan"
    using i by (rule id_take_nth_drop)
  then have "mset chan = mset (take ?i chan @ chan ! ?i # drop (Suc ?i) chan)" by simp
  then have m: "mset chan = add_mset (chan ! ?i) (mset (take ?i chan @ drop (Suc ?i) chan))"
    by simp
  have l: "Suc (length (take ?i chan @ drop (Suc ?i) chan)) = length chan"
    using i by simp
  have "chan_recv c chan = Some (chan ! ?i, take ?i chan @ drop (Suc ?i) chan)"
    using assms by (simp add: chan_recv_def Let_def)
  with m l show ?thesis using that by blast
qed

lemma chan_recv_None: "chan_recv c [] = None"
  by (simp add: chan_recv_def)

text \<open>One turn of the loop: one receive, and the counter goes down by one.\<close>

lemma recv_loop_step:
  assumes "0 < n" and "chan \<noteq> []"
  shows "\<exists>v chan'. recv_loop pick n chan got = recv_loop pick (n - 1) chan' (got @ [v])
            \<and> Suc (length chan') = length chan \<and> mset chan = add_mset v (mset chan')"
proof -
  from assms(2) obtain v chan' where r: "chan_recv (pick n) chan = Some (v, chan')"
    and m: "mset chan = add_mset v (mset chan')" and l: "Suc (length chan') = length chan"
    by (rule chan_recv_Some)
  from assms(1) r have "recv_loop pick n chan got = recv_loop pick (n - 1) chan' (got @ [v])"
    by (subst recv_loop.simps) simp
  with m l show ?thesis by blast
qed

lemma recv_loop_prefix:
  "k \<le> nat n \<Longrightarrow> k \<le> length chan \<Longrightarrow>
     \<exists>chan' got'. recv_loop pick n chan got = recv_loop pick (n - int k) chan' (got @ got')
        \<and> length got' = k \<and> length chan' + k = length chan \<and> mset chan = mset got' + mset chan'"
proof (induction k arbitrary: n chan got)
  case 0
  have "recv_loop pick n chan got = recv_loop pick (n - int 0) chan (got @ [])" by simp
  then show ?case by fastforce
next
  case (Suc k)
  from Suc.prems have n: "0 < n" and c: "chan \<noteq> []" by auto
  from recv_loop_step [OF n c, where pick = pick and got = got] obtain v chan1 where
    s: "recv_loop pick n chan got = recv_loop pick (n - 1) chan1 (got @ [v])"
    and l: "Suc (length chan1) = length chan" and m: "mset chan = add_mset v (mset chan1)"
    by blast
  from Suc.prems l have "k \<le> nat (n - 1)" "k \<le> length chan1" by auto
  from Suc.IH [OF this, where got = "got @ [v]"] obtain chan' got' where
    r: "recv_loop pick (n - 1) chan1 (got @ [v]) =
          recv_loop pick (n - 1 - int k) chan' ((got @ [v]) @ got')"
    and lg: "length got' = k" and lc: "length chan' + k = length chan1"
    and mm: "mset chan1 = mset got' + mset chan'"
    by blast
  have "recv_loop pick n chan got = recv_loop pick (n - int (Suc k)) chan' (got @ (v # got'))"
    using s r by (simp add: algebra_simps)
  moreover have "length (v # got') = Suc k" using lg by simp
  moreover have "length chan' + Suc k = length chan" using lc l by simp
  moreover have "mset chan = mset (v # got') + mset chan'" using m mm by simp
  ultimately show ?case by blast
qed

lemma recv_loop_done: "n \<le> 0 \<Longrightarrow> recv_loop pick n chan got = Some (n, chan, got)"
  by (subst recv_loop.simps) simp

lemma recv_loop_returns:
  assumes "0 \<le> n" and "nat n \<le> length chan"
  shows "\<exists>chan' got'. recv_loop pick n chan got = Some (0, chan', got @ got')
           \<and> length got' = nat n \<and> length chan' + nat n = length chan
           \<and> mset chan = mset got' + mset chan'"
proof -
  from recv_loop_prefix [of "nat n" n chan pick got] assms obtain chan' got' where
    r: "recv_loop pick n chan got = recv_loop pick (n - int (nat n)) chan' (got @ got')"
    and rest: "length got' = nat n" "length chan' + nat n = length chan"
      "mset chan = mset got' + mset chan'"
    by blast
  from assms(1) have "n - int (nat n) = 0" by simp
  with r have "recv_loop pick n chan got = Some (0, chan', got @ got')"
    by (simp add: recv_loop_done)
  with rest show ?thesis by blast
qed

lemma recv_loop_blocks:
  assumes "length chan < nat n"
  shows "recv_loop pick n chan got = None"
proof -
  from assms have k: "length chan \<le> nat n" by simp
  from recv_loop_prefix [OF k order_refl, where pick = pick and got = got] obtain chan' got' where
    r: "recv_loop pick n chan got = recv_loop pick (n - int (length chan)) chan' (got @ got')"
    and l: "length chan' + length chan = length chan"
    by blast
  from l have e: "chan' = []" by simp
  from assms have "0 < n - int (length chan)" by linarith
  then have "recv_loop pick (n - int (length chan)) [] (got @ got') = None"
    by (subst recv_loop.simps) (simp add: chan_recv_None)
  with r e show ?thesis by simp
qed

section \<open>The loops of the stages\<close>

lemma foldl_AddFuture:
  "foldl AddFuture f futs =
     \<lparr>Channels = Channels f @ concat futs, ItemsInChannels = ItemsInChannels f + int (length futs)\<rparr>"
  by (induction futs arbitrary: f) (simp_all add: AddFuture_def forward_def)

lemma concat_map_if:
  "concat (map (\<lambda>x. if P x then [h x] else []) xs) = map h (filter P xs)"
  by (induction xs) simp_all

lemma range_pkgs_eq:
  "range_pkgs body i ps f =
     (map (\<lambda>(j, p). fst (body j p)) (enumerate i ps),
      foldl AddFuture f (concat (map (\<lambda>(j, p). map snd (snd (body j p))) (enumerate i ps))),
      concat (map (\<lambda>(j, p). map fst (snd (body j p))) (enumerate i ps)))"
  by (induction ps arbitrary: i f) (simp_all add: Let_def split: prod.splits)

lemma stringInArray_set: "stringInArray s list = (s \<in> set list)"
  by (induction list) auto

lemma CheckIfValidPackage_eq:
  "CheckIfValidPackage p response =
     (p\<lparr>Valid := probe_ok response\<rparr>, [p\<lparr>Valid := probe_ok response\<rparr>])"
  by (cases response)
     (auto simp: CheckIfValidPackage_def probe_ok_def Let_def stringInArray_set acceptableMIMETypes_def)

lemma validate_body_eq:
  "validate_body w i p =
     (p\<lparr>Valid := probe_ok (env_http_Get w i)\<rparr>,
      [(Validate i, [p\<lparr>Valid := probe_ok (env_http_Get w i)\<rparr>])])"
  by (simp add: validate_body_def CheckIfValidPackage_eq)

lemma DownloadArtifact_eq:
  "DownloadArtifact join p basedir io =
     (if gives_up io then (p, [])
      else (p\<lparr>File := join (join basedir (Project p)) (path_Base (Artifact p))\<rparr>,
            [p\<lparr>File := join (join basedir (Project p)) (path_Base (Artifact p))\<rparr>]))"
  by (auto simp: DownloadArtifact_def gives_up_def Let_def split: option.splits)

lemma download_scan_eq:
  "download_scan w i p clusters =
     (if list_ex (map_get (NeedUpdate p)) clusters
      then (fst (DownloadArtifact (env_Join w) p (env_Join w (env_Getwd w) ''downloads_tmp'')
                   (env_download w i)),
            [(Download i,
              snd (DownloadArtifact (env_Join w) p (env_Join w (env_Getwd w) ''downloads_tmp'')
                     (env_download w i)))])
      else (p, []))"
  by (induction clusters) (auto split: prod.splits)

lemma download_body_eq:
  "download_body w i p =
     (if stale p
      then (fst (DownloadArtifact (env_Join w) p (env_Join w (env_Getwd w) ''downloads_tmp'')
                   (env_download w i)),
            [(Download i,
              snd (DownloadArtifact (env_Join w) p (env_Join w (env_Getwd w) ''downloads_tmp'')
                     (env_download w i)))])
      else (p, []))"
  by (simp add: download_body_def stale_def download_scan_eq)

lemma assess_body_eq:
  "assess_body w i p =
     (if Valid p
      then (fst (IsUpdateNeeded p (env_package_versions w i)),
            [(Assess i, [fst (IsUpdateNeeded p (env_package_versions w i))])])
      else (p, []))"
  by (simp add: assess_body_def IsUpdateNeeded_def Let_def)

lemma range_pkgs_eq2:
  "range_pkgs body i ps f =
     (map (\<lambda>x. fst (body (fst x) (snd x))) (enumerate i ps),
      \<lparr>Channels = Channels f @
         concat (map (\<lambda>x. concat (map snd (snd (body (fst x) (snd x))))) (enumerate i ps)),
       ItemsInChannels = ItemsInChannels f +
         int (length (concat (map (\<lambda>x. map fst (snd (body (fst x) (snd x)))) (enumerate i ps))))\<rparr>,
      concat (map (\<lambda>x. map fst (snd (body (fst x) (snd x)))) (enumerate i ps)))"
proof -
  have "length (concat (map (\<lambda>x. map snd (snd (body (fst x) (snd x)))) xs)) =
        length (concat (map (\<lambda>x. map fst (snd (body (fst x) (snd x)))) xs))" for xs :: "(nat \<times> Package) list"
    by (induction xs) simp_all
  moreover have "concat (concat (map (\<lambda>x. map snd (snd (body (fst x) (snd x)))) xs)) =
        concat (map (\<lambda>x. concat (map snd (snd (body (fst x) (snd x))))) xs)" for xs :: "(nat \<times> Package) list"
    by (induction xs) simp_all
  ultimately show ?thesis
    by (simp add: range_pkgs_eq foldl_AddFuture split_def)
qed

lemma validation_stage:
  "range_pkgs (validate_body w) 0 ps f =
     (map (\<lambda>x. (snd x)\<lparr>Valid := probe_ok (env_http_Get w (fst x))\<rparr>) (enumerate 0 ps),
      \<lparr>Channels = Channels f @
         map (\<lambda>x. (snd x)\<lparr>Valid := probe_ok (env_http_Get w (fst x))\<rparr>) (enumerate 0 ps),
       ItemsInChannels = ItemsInChannels f + int (length ps)\<rparr>,
      map (\<lambda>x. Validate (fst x)) (enumerate 0 ps))"
  by (simp add: range_pkgs_eq2 validate_body_eq)

lemma assess_started:
  "map fst (snd (assess_body w i p)) = (if Valid p then [Assess i] else [])"
  "concat (map snd (snd (assess_body w i p))) =
     (if Valid p then [fst (IsUpdateNeeded p (env_package_versions w i))] else [])"
  "fst (assess_body w i p) =
     (if Valid p then fst (IsUpdateNeeded p (env_package_versions w i)) else p)"
  by (simp_all add: assess_body_eq)

lemma assessment_stage:
  "range_pkgs (assess_body w) 0 ps f =
     (map (\<lambda>x. if Valid (snd x)
                then fst (IsUpdateNeeded (snd x) (env_package_versions w (fst x))) else snd x)
        (enumerate 0 ps),
      \<lparr>Channels = Channels f @
         map (\<lambda>x. fst (IsUpdateNeeded (snd x) (env_package_versions w (fst x))))
           (filter (\<lambda>x. Valid (snd x)) (enumerate 0 ps)),
       ItemsInChannels = ItemsInChannels f +
         int (length (filter (\<lambda>x. Valid (snd x)) (enumerate 0 ps)))\<rparr>,
      map (\<lambda>x. Assess (fst x)) (filter (\<lambda>x. Valid (snd x)) (enumerate 0 ps)))"
  by (simp add: range_pkgs_eq2 assess_started concat_map_if)

lemma download_started:
  "map fst (snd (download_body w i p)) = (if stale p then [Download i] else [])"
  "concat (map snd (snd (download_body w i p))) =
     (if stale p \<and> \<not> gives_up (env_download w i)
      then [p\<lparr>File := env_Join w (env_Join w (env_Join w (env_Getwd w) ''downloads_tmp'') (Project p))
                          (path_Base (Artifact p))\<rparr>]
      else [])"
  "fst (download_body w i p) =
     (if stale p \<and> \<not> gives_up (env_download w i)
      then p\<lparr>File := env_Join w (env_Join w (env_Join w (env_Getwd w) ''downloads_tmp'') (Project p))
                         (path_Base (Artifact p))\<rparr>
      else p)"
  by (simp_all add: download_body_eq DownloadArtifact_eq)

lemma download_stage:
  "range_pkgs (download_body w) 0 ps f =
     (map (\<lambda>x. fst (download_body w (fst x) (snd x))) (enumerate 0 ps),
      \<lparr>Channels = Channels f @
         map (\<lambda>x. (snd x)\<lparr>File := env_Join w
                      (env_Join w (env_Join w (env_Getwd w) ''downloads_tmp'') (Project (snd x)))
                      (path_Base (Artifact (snd x)))\<rparr>)
           (filter (\<lambda>x. stale (snd x) \<and> \<not> gives_up (env_download w (fst x))) (enumerate 0 ps)),
       ItemsInChannels = ItemsInChannels f +
         int (length (filter (\<lambda>x. stale (snd x)) (enumerate 0 ps)))\<rparr>,
      map (\<lambda>x. Download (fst x)) (filter (\<lambda>x. stale (snd x)) (enumerate 0 ps)))"
  by (simp add: range_pkgs_eq2 download_started concat_map_if)

section \<open>Draining after a stage\<close>

lemma BlockUntilComplete_all:
  assumes "ItemsInChannels f = int (length (Channels f))"
  shows "BlockUntilComplete pick f = Some no_futures"
proof -
  from assms have "0 \<le> ItemsInChannels f" "nat (ItemsInChannels f) \<le> length (Channels f)"
    by simp_all
  from recv_loop_returns [OF this, where pick = pick and got = "[]"] obtain chan got where
    r: "recv_loop pick (ItemsInChannels f) (Channels f) [] = Some (0, chan, got)"
    and l: "length chan + nat (ItemsInChannels f) = length (Channels f)"
    by auto
  from l assms have "chan = []" by simp
  with r show ?thesis by (simp add: BlockUntilComplete_def no_futures_def)
qed

lemma BlockUntilComplete_short:
  "int (length (Channels f)) < ItemsInChannels f \<Longrightarrow> BlockUntilComplete pick f = None"
  by (simp add: BlockUntilComplete_def recv_loop_blocks)

lemma filter_conj_length:
  "length (filter (\<lambda>x. P x \<and> Q x) xs) \<le> length (filter P xs)"
  "length (filter (\<lambda>x. P x \<and> Q x) xs) = length (filter P xs) \<longleftrightarrow> \<not> list_ex (\<lambda>x. P x \<and> \<not> Q x) xs"
proof -
  show le: "length (filter (\<lambda>x. P x \<and> Q x) xs) \<le> length (filter P xs)" for xs
    by (induction xs) simp_all
  show "length (filter (\<lambda>x. P x \<and> Q x) xs) = length (filter P xs) \<longleftrightarrow> \<not> list_ex (\<lambda>x. P x \<and> \<not> Q x) xs"
  proof (induction xs)
    case Nil
    show ?case by simp
  next
    case (Cons a xs)
    from le [of xs] Cons show ?case by auto
  qed
qed

lemma length_concat_once:
  "list_all (\<lambda>f. length f = 1) futs \<Longrightarrow> length (concat futs) = length futs"
  by (induction futs) simp_all

lemma length_concat_silent:
  "list_all (\<lambda>f. length f \<le> 1) futs \<Longrightarrow>
     length (concat futs) \<le> length futs
     \<and> (list_ex (\<lambda>f. f = []) futs \<longrightarrow> length (concat futs) < length futs)"
  by (induction futs) auto

lemma int64_wrap_id: "- (2 ^ 63) \<le> x \<Longrightarrow> x < 2 ^ 63 \<Longrightarrow> int64_wrap x = x"
  by (simp add: int64_wrap_def)


text \<open>
  Claim C3. For a pool whose counter is \<open>N \<ge> 0\<close>: when at least \<open>N\<close> values come,
  the loop of \<^verbatim>\<open>BlockUntilComplete\<close> receives exactly \<open>N\<close> of them, leaves the others
  waiting and returns with the counter at zero; when fewer than \<open>N\<close> values come it
  never returns; after \<open>k\<close> receives the counter is \<open>N - k\<close>. \<^verbatim>\<open>AddFuture\<close> increments
  the counter by exactly one, which is Go's \<^verbatim>\<open>++\<close> on a 64-bit \<^verbatim>\<open>int\<close> as long as the
  counter is below \<open>2^63 - 1\<close>, and relays the values of the future to the shared
  channel. So for a pool with as many values waiting as its counter says, to which
  futures are added with the counter staying below \<open>2^63\<close>: the counter is the old one
  plus the number of futures and the channel gets the values of all of them; when every
  future delivers once, \<^verbatim>\<open>BlockUntilComplete\<close> receives exactly the waiting values and
  the values of the futures and returns with the empty pool; and when no future delivers
  twice and one delivers nothing, it never returns.
\<close>

theorem BlockUntilComplete_exact:
  assumes "0 \<le> ItemsInChannels futures"
  shows "(nat (ItemsInChannels futures) \<le> length (Channels futures) \<longrightarrow>
            (\<exists>chan got.
               recv_loop pick (ItemsInChannels futures) (Channels futures) [] = Some (0, chan, got)
               \<and> length got = nat (ItemsInChannels futures)
               \<and> mset (Channels futures) = mset got + mset chan
               \<and> BlockUntilComplete pick futures = Some \<lparr>Channels = chan, ItemsInChannels = 0\<rparr>))
       \<and> (length (Channels futures) < nat (ItemsInChannels futures) \<longrightarrow>
            BlockUntilComplete pick futures = None)
       \<and> (\<forall>k. k \<le> nat (ItemsInChannels futures) \<and> k \<le> length (Channels futures) \<longrightarrow>
            (\<exists>chan got. length got = k
               \<and> recv_loop pick (ItemsInChannels futures) (Channels futures) [] =
                   recv_loop pick (ItemsInChannels futures - int k) chan got))
       \<and> (ItemsInChannels futures < 2 ^ 63 - 1 \<longrightarrow>
            ItemsInChannels (AddFuture futures future) = ItemsInChannels futures + 1
            \<and> ItemsInChannels (AddFuture futures future) = int64_wrap (ItemsInChannels futures + 1))
       \<and> Channels (AddFuture futures future) = Channels futures @ future
       \<and> (\<forall>futs. ItemsInChannels futures = int (length (Channels futures))
              \<and> ItemsInChannels futures + int (length futs) < 2 ^ 63 \<longrightarrow>
            ItemsInChannels (foldl AddFuture futures futs) = ItemsInChannels futures + int (length futs)
            \<and> Channels (foldl AddFuture futures futs) = Channels futures @ concat futs
            \<and> (list_all (\<lambda>f. length f = 1) futs \<longrightarrow>
                 (\<exists>got. recv_loop pick (ItemsInChannels (foldl AddFuture futures futs))
                           (Channels (foldl AddFuture futures futs)) [] = Some (0, [], got)
                    \<and> mset got = mset (Channels futures) + mset (concat futs))
                 \<and> BlockUntilComplete pick (foldl AddFuture futures futs) = Some no_futures)
            \<and> (list_all (\<lambda>f. length f \<le> 1) futs \<and> list_ex (\<lambda>f. f = []) futs \<longrightarrow>
                 BlockUntilComplete pick (foldl AddFuture futures futs) = None))"
proof -
  have drain: "nat (ItemsInChannels futures) \<le> length (Channels futures) \<longrightarrow>
            (\<exists>chan got.
               recv_loop pick (ItemsInChannels futures) (Channels futures) [] = Some (0, chan, got)
               \<and> length got = nat (ItemsInChannels futures)
               \<and> mset (Channels futures) = mset got + mset chan
               \<and> BlockUntilComplete pick futures = Some \<lparr>Channels = chan, ItemsInChannels = 0\<rparr>)"
  proof
    assume "nat (ItemsInChannels futures) \<le> length (Channels futures)"
    from recv_loop_returns [OF assms this, where pick = pick and got = "[]"] obtain chan got where
      r: "recv_loop pick (ItemsInChannels futures) (Channels futures) [] = Some (0, chan, got)"
      and l: "length got = nat (ItemsInChannels futures)"
      and m: "mset (Channels futures) = mset got + mset chan"
      by auto
    from r have "BlockUntilComplete pick futures = Some \<lparr>Channels = chan, ItemsInChannels = 0\<rparr>"
      by (simp add: BlockUntilComplete_def)
    with r l m show "\<exists>chan got.
        recv_loop pick (ItemsInChannels futures) (Channels futures) [] = Some (0, chan, got)
        \<and> length got = nat (ItemsInChannels futures)
        \<and> mset (Channels futures) = mset got + mset chan
        \<and> BlockUntilComplete pick futures = Some \<lparr>Channels = chan, ItemsInChannels = 0\<rparr>"
      by blast
  qed
  have block: "length (Channels futures) < nat (ItemsInChannels futures) \<longrightarrow>
            BlockUntilComplete pick futures = None"
    by (simp add: BlockUntilComplete_def recv_loop_blocks)
  have count: "\<forall>k. k \<le> nat (ItemsInChannels futures) \<and> k \<le> length (Channels futures) \<longrightarrow>
            (\<exists>chan got. length got = k
               \<and> recv_loop pick (ItemsInChannels futures) (Channels futures) [] =
                   recv_loop pick (ItemsInChannels futures - int k) chan got)"
  proof (intro allI impI)
    fix k
    assume "k \<le> nat (ItemsInChannels futures) \<and> k \<le> length (Channels futures)"
    then have "k \<le> nat (ItemsInChannels futures)" "k \<le> length (Channels futures)" by auto
    from recv_loop_prefix [OF this, where pick = pick and got = "[]"]
    show "\<exists>chan got. length got = k
        \<and> recv_loop pick (ItemsInChannels futures) (Channels futures) [] =
            recv_loop pick (ItemsInChannels futures - int k) chan got"
      by auto
  qed
  have incr: "ItemsInChannels futures < 2 ^ 63 - 1 \<longrightarrow>
            ItemsInChannels (AddFuture futures future) = ItemsInChannels futures + 1
            \<and> ItemsInChannels (AddFuture futures future) = int64_wrap (ItemsInChannels futures + 1)"
  proof
    assume b: "ItemsInChannels futures < 2 ^ 63 - 1"
    have i: "ItemsInChannels (AddFuture futures future) = ItemsInChannels futures + 1"
      by (simp add: AddFuture_def)
    from assms b have "int64_wrap (ItemsInChannels futures + 1) = ItemsInChannels futures + 1"
      by (intro int64_wrap_id) simp_all
    with i show "ItemsInChannels (AddFuture futures future) = ItemsInChannels futures + 1
            \<and> ItemsInChannels (AddFuture futures future) = int64_wrap (ItemsInChannels futures + 1)"
      by simp
  qed
  have relay: "Channels (AddFuture futures future) = Channels futures @ future"
    by (simp add: AddFuture_def forward_def)
  have pool: "\<forall>futs. ItemsInChannels futures = int (length (Channels futures))
              \<and> ItemsInChannels futures + int (length futs) < 2 ^ 63 \<longrightarrow>
            ItemsInChannels (foldl AddFuture futures futs) = ItemsInChannels futures + int (length futs)
            \<and> Channels (foldl AddFuture futures futs) = Channels futures @ concat futs
            \<and> (list_all (\<lambda>f. length f = 1) futs \<longrightarrow>
                 (\<exists>got. recv_loop pick (ItemsInChannels (foldl AddFuture futures futs))
                           (Channels (foldl AddFuture futures futs)) [] = Some (0, [], got)
                    \<and> mset got = mset (Channels futures) + mset (concat futs))
                 \<and> BlockUntilComplete pick (foldl AddFuture futures futs) = Some no_futures)
            \<and> (list_all (\<lambda>f. length f \<le> 1) futs \<and> list_ex (\<lambda>f. f = []) futs \<longrightarrow>
                 BlockUntilComplete pick (foldl AddFuture futures futs) = None)"
  proof (intro allI impI)
    fix futs :: "Package list list"
    assume a: "ItemsInChannels futures = int (length (Channels futures))
              \<and> ItemsInChannels futures + int (length futs) < 2 ^ 63"
    let ?F = "foldl AddFuture futures futs"
    have n: "ItemsInChannels ?F = ItemsInChannels futures + int (length futs)"
      and c: "Channels ?F = Channels futures @ concat futs"
      by (simp_all add: foldl_AddFuture)
    have once: "list_all (\<lambda>f. length f = 1) futs \<longrightarrow>
                 (\<exists>got. recv_loop pick (ItemsInChannels ?F) (Channels ?F) [] = Some (0, [], got)
                    \<and> mset got = mset (Channels futures) + mset (concat futs))
                 \<and> BlockUntilComplete pick ?F = Some no_futures"
    proof
      assume "list_all (\<lambda>f. length f = 1) futs"
      then have "length (concat futs) = length futs" by (rule length_concat_once)
      with a n c have bal: "ItemsInChannels ?F = int (length (Channels ?F))" by simp
      then have "0 \<le> ItemsInChannels ?F" "nat (ItemsInChannels ?F) \<le> length (Channels ?F)"
        by simp_all
      from recv_loop_returns [OF this, where pick = pick and got = "[]"] obtain chan got where
        r: "recv_loop pick (ItemsInChannels ?F) (Channels ?F) [] = Some (0, chan, got)"
        and l: "length chan + nat (ItemsInChannels ?F) = length (Channels ?F)"
        and m: "mset (Channels ?F) = mset got + mset chan"
        by auto
      from l bal have e: "chan = []" by simp
      with m c have "mset got = mset (Channels futures) + mset (concat futs)" by simp
      moreover from r e have "recv_loop pick (ItemsInChannels ?F) (Channels ?F) [] = Some (0, [], got)"
        by simp
      moreover have "BlockUntilComplete pick ?F = Some no_futures"
        using bal by (rule BlockUntilComplete_all)
      ultimately show "(\<exists>got. recv_loop pick (ItemsInChannels ?F) (Channels ?F) [] = Some (0, [], got)
                    \<and> mset got = mset (Channels futures) + mset (concat futs))
                 \<and> BlockUntilComplete pick ?F = Some no_futures"
        by blast
    qed
    have silent: "list_all (\<lambda>f. length f \<le> 1) futs \<and> list_ex (\<lambda>f. f = []) futs \<longrightarrow>
                 BlockUntilComplete pick ?F = None"
    proof
      assume "list_all (\<lambda>f. length f \<le> 1) futs \<and> list_ex (\<lambda>f. f = []) futs"
      with length_concat_silent [of futs] have "length (concat futs) < length futs" by blast
      with a n c have "int (length (Channels ?F)) < ItemsInChannels ?F" by simp
      then show "BlockUntilComplete pick ?F = None" by (rule BlockUntilComplete_short)
    qed
    from n c once silent show "ItemsInChannels ?F = ItemsInChannels futures + int (length futs)
            \<and> Channels ?F = Channels futures @ concat futs
            \<and> (list_all (\<lambda>f. length f = 1) futs \<longrightarrow>
                 (\<exists>got. recv_loop pick (ItemsInChannels ?F) (Channels ?F) [] = Some (0, [], got)
                    \<and> mset got = mset (Channels futures) + mset (concat futs))
                 \<and> BlockUntilComplete pick ?F = Some no_futures)
            \<and> (list_all (\<lambda>f. length f \<le> 1) futs \<and> list_ex (\<lambda>f. f = []) futs \<longrightarrow>
                 BlockUntilComplete pick ?F = None)"
      by (intro conjI)
  qed
  from drain block count incr relay pool show ?thesis by (intro conjI)
qed


theorem BlockUntilComplete_exact_witness:
  "0 \<le> ItemsInChannels \<lparr>Channels = [zero_Package, zero_Package], ItemsInChannels = 2\<rparr>
   \<and> BlockUntilComplete (\<lambda>n. 0) \<lparr>Channels = [zero_Package, zero_Package], ItemsInChannels = 2\<rparr>
     = Some \<lparr>Channels = [], ItemsInChannels = 0\<rparr>
   \<and> BlockUntilComplete (\<lambda>n. 0) \<lparr>Channels = [zero_Package], ItemsInChannels = 2\<rparr> = None
   \<and> ItemsInChannels \<lparr>Channels = [], ItemsInChannels = 2\<rparr> < 2 ^ 63 - 1
   \<and> ItemsInChannels (AddFuture \<lparr>Channels = [], ItemsInChannels = 2\<rparr> [zero_Package]) = 3
   \<and> int64_wrap (ItemsInChannels \<lparr>Channels = [], ItemsInChannels = 2\<rparr> + 1) = 3
   \<and> list_all (\<lambda>f. length f = 1) [[zero_Package], [zero_Package\<lparr>Project := ''web''\<rparr>]]
   \<and> BlockUntilComplete (\<lambda>n. 0)
        (foldl AddFuture no_futures [[zero_Package], [zero_Package\<lparr>Project := ''web''\<rparr>]])
     = Some no_futures
   \<and> list_ex (\<lambda>f. f = []) [[zero_Package], []]
   \<and> BlockUntilComplete (\<lambda>n. 0) (foldl AddFuture no_futures [[zero_Package], []]) = None"
proof -
  let ?F = "\<lparr>Channels = [zero_Package, zero_Package], ItemsInChannels = 2\<rparr>"
  let ?G = "\<lparr>Channels = [zero_Package], ItemsInChannels = 2\<rparr>"
  let ?H = "\<lparr>Channels = [], ItemsInChannels = 2\<rparr>"
  let ?once = "[[zero_Package], [zero_Package\<lparr>Project := ''web''\<rparr>]]"
  let ?silent = "[[zero_Package], [] :: Package list]"
  have nF: "0 \<le> ItemsInChannels ?F" and nG: "0 \<le> ItemsInChannels ?G"
    and nH: "0 \<le> ItemsInChannels ?H" and nE: "0 \<le> ItemsInChannels no_futures"
    by (simp_all add: no_futures_def)
  from BlockUntilComplete_exact [OF nF, where pick = "\<lambda>n. 0"]
  have "\<exists>chan got. recv_loop (\<lambda>n. 0) (ItemsInChannels ?F) (Channels ?F) [] = Some (0, chan, got)
          \<and> length got = nat (ItemsInChannels ?F)
          \<and> mset (Channels ?F) = mset got + mset chan
          \<and> BlockUntilComplete (\<lambda>n. 0) ?F = Some \<lparr>Channels = chan, ItemsInChannels = 0\<rparr>"
    by simp
  then obtain chan got where
    l: "length got = nat (ItemsInChannels ?F)" and m: "mset (Channels ?F) = mset got + mset chan"
    and b: "BlockUntilComplete (\<lambda>n. 0) ?F = Some \<lparr>Channels = chan, ItemsInChannels = 0\<rparr>"
    by blast
  from m have "size (mset (Channels ?F)) = size (mset got + mset chan)" by simp
  with l have "chan = []" by simp
  with b have 1: "BlockUntilComplete (\<lambda>n. 0) ?F = Some \<lparr>Channels = [], ItemsInChannels = 0\<rparr>"
    by simp
  from BlockUntilComplete_exact [OF nG, where pick = "\<lambda>n. 0"]
  have 2: "BlockUntilComplete (\<lambda>n. 0) ?G = None" by simp
  have bH: "ItemsInChannels ?H < 2 ^ 63 - 1" by simp
  from BlockUntilComplete_exact [OF nH, where pick = "\<lambda>n. 0" and future = "[zero_Package]"]
  have "ItemsInChannels ?H < 2 ^ 63 - 1 \<longrightarrow>
          ItemsInChannels (AddFuture ?H [zero_Package]) = ItemsInChannels ?H + 1
          \<and> ItemsInChannels (AddFuture ?H [zero_Package]) = int64_wrap (ItemsInChannels ?H + 1)"
    by (elim conjE)
  with bH have 3: "ItemsInChannels (AddFuture ?H [zero_Package]) = 3"
    and 4: "int64_wrap (ItemsInChannels ?H + 1) = 3"
    by simp_all
  have bal: "ItemsInChannels no_futures = int (length (Channels no_futures))"
    by (simp add: no_futures_def)
  have small: "ItemsInChannels no_futures + int (length ?once) < 2 ^ 63"
    "ItemsInChannels no_futures + int (length ?silent) < 2 ^ 63"
    by (simp_all add: no_futures_def)
  have o: "list_all (\<lambda>f. length f = 1) ?once" by simp
  have s: "list_all (\<lambda>f. length f \<le> 1) ?silent" "list_ex (\<lambda>f. f = []) ?silent" by simp_all
  note pool = BlockUntilComplete_exact [OF nE, where pick = "\<lambda>n. 0", THEN conjunct2, THEN conjunct2,
      THEN conjunct2, THEN conjunct2, THEN conjunct2, rule_format]
  from pool [of ?once] bal small(1) o
  have 5: "BlockUntilComplete (\<lambda>n. 0) (foldl AddFuture no_futures ?once) = Some no_futures"
    by blast
  from pool [of ?silent] bal small(2) s
  have 6: "BlockUntilComplete (\<lambda>n. 0) (foldl AddFuture no_futures ?silent) = None"
    by blast
  from nF 1 2 bH 3 4 o 5 s(2) 6 show ?thesis by (intro conjI)
qed

section \<open>The upload stage\<close>

lemma upload_step_cases:
  obtains (quiescent) "us_todo s = []" "us_active s = []" "upload_step w k s = Quiescent"
  | (main_turn) ic rest where "us_todo s = ic # rest"
      "upload_step w k s = Steps (upload_main_step s)"
  | (task_turn) j where "j < length (us_active s)"
      "upload_step w k s = upload_task_step w j s"
proof -
  let ?m = "if us_todo s = [] then 0 else 1 :: nat"
  let ?ready = "?m + length (us_active s)"
  show ?thesis
  proof (cases "?ready = 0")
    case True
    then have "us_todo s = []" "us_active s = []" by (auto split: if_splits)
    moreover from True have "upload_step w k s = Quiescent"
      by (simp add: upload_step_def Let_def)
    ultimately show ?thesis by (rule quiescent)
  next
    case False
    let ?c = "env_sched w k mod ?ready"
    from False have c: "?c < ?ready" by (intro mod_less_divisor) simp
    show ?thesis
    proof (cases "?c < ?m")
      case True
      then have "us_todo s \<noteq> []" by (auto split: if_splits)
      then obtain ic rest where t: "us_todo s = ic # rest" by (cases "us_todo s") auto
      from True False have "upload_step w k s = Steps (upload_main_step s)"
        by (simp add: upload_step_def Let_def)
      with t show ?thesis by (rule main_turn)
    next
      case nm: False
      with c have j: "?c - ?m < length (us_active s)" by linarith
      from nm False have "upload_step w k s = upload_task_step w (?c - ?m) s"
        by (auto simp: upload_step_def Let_def)
      with j show ?thesis by (rule task_turn)
    qed
  qed
qed

lemma NeedUpdate_list_update:
  "NeedUpdate x = NeedUpdate (ps ! i) \<Longrightarrow> NeedUpdate (ps[i := x] ! j) = NeedUpdate (ps ! j)"
  by (cases "i < length ps"; cases "i = j") (simp_all add: list_update_beyond not_less)

lemma wants_list_update:
  "NeedUpdate x = NeedUpdate (ps ! i) \<Longrightarrow> wants (ps[i := x]) = wants ps"
  by (rule ext) (simp add: wants_def NeedUpdate_list_update)

lemma frame_list_update:
  "frame x = frame (ps ! i) \<Longrightarrow> map frame (ps[i := x]) = map frame ps"
  by (cases "i < length ps") (simp_all add: map_update list_update_same_conv list_update_beyond not_less)

text \<open>What one turn of \<^verbatim>\<open>main\<close> does in the upload stage.\<close>

lemma upload_main_step_eq:
  assumes "us_todo s = ic # rest"
  shows "us_todo (upload_main_step s) = rest"
    and "wants (us_pkgs (upload_main_step s)) = wants (us_pkgs s)"
    and "map frame (us_pkgs (upload_main_step s)) = map frame (us_pkgs s)"
    and "us_spawned (upload_main_step s) =
           us_spawned s @ (if wants (us_pkgs s) ic then [upload_task ic] else [])"
    and "us_active (upload_main_step s) =
           us_active s @ (if wants (us_pkgs s) ic then [ic] else [])"
    and "ItemsInChannels (us_futures (upload_main_step s)) =
           ItemsInChannels (us_futures s) + (if wants (us_pkgs s) ic then 1 else 0)"
    and "Channels (us_futures (upload_main_step s)) = Channels (us_futures s)"
  using assms
  by (cases ic;
      simp add: upload_main_step_def wants_def upload_task_def UpdatePackage_make_def
        AddFuture_def forward_def wants_list_update frame_list_update frame_def
        NeedUpdate_list_update)+


text \<open>What one turn of a started goroutine does.\<close>

lemma upload_task_step_frame:
  "upload_task_step w j s = Steps s' \<Longrightarrow>
     map frame (us_pkgs s') = map frame (us_pkgs s) \<and> wants (us_pkgs s') = wants (us_pkgs s)
     \<and> us_todo s' = us_todo s \<and> us_spawned s' = us_spawned s
     \<and> us_active s' = take j (us_active s) @ drop (Suc j) (us_active s)
     \<and> ItemsInChannels (us_futures s') = ItemsInChannels (us_futures s)
     \<and> length (Channels (us_futures s')) = Suc (length (Channels (us_futures s)))"
  by (auto simp: upload_task_step_def UpdatePackage_go_def Let_def forward_def frame_def
        frame_list_update wants_list_update
      split: prod.splits option.splits sum.splits)

lemma upload_task_step_None:
  "env_user_Current w = None \<Longrightarrow> upload_task_step w j s = Panics"
  by (simp add: upload_task_step_def UpdatePackage_go_def split: prod.splits)

lemma upload_task_step_Some:
  "env_user_Current w = Some u \<Longrightarrow> \<exists>s'. upload_task_step w j s = Steps s'"
  by (simp add: upload_task_step_def UpdatePackage_go_def Let_def split: prod.splits)

declare upload_run.simps [simp del]

lemma upload_run_frame:
  "map frame (us_pkgs (case upload_run w k s of Inl s' \<Rightarrow> s' | Inr s' \<Rightarrow> s')) = map frame (us_pkgs s)"
proof (induction w k s rule: upload_run.induct)
  case (1 w k s)
  show ?case
  proof (cases "upload_step w k s")
    case Quiescent
    then show ?thesis by (simp add: upload_run.simps [of w k s])
  next
    case Panics
    then show ?thesis by (simp add: upload_run.simps [of w k s])
  next
    case (Steps s')
    have "map frame (us_pkgs s') = map frame (us_pkgs s)"
    proof (cases rule: upload_step_cases [of s w k])
      case quiescent
      with Steps show ?thesis by simp
    next
      case (main_turn ic rest)
      with Steps upload_main_step_eq(3) [OF main_turn(1)] show ?thesis by simp
    next
      case (task_turn j)
      with Steps upload_task_step_frame [of w j s s'] show ?thesis by simp
    qed
    with 1 [OF Steps] Steps show ?thesis by (simp add: upload_run.simps [of w k s])
  qed
qed

text \<open>
  With a current user, every interleaving of the upload stage comes to rest: all
  iterations are run, every flagged iteration has started one task, and every started
  task has handed over one value.
\<close>

lemma upload_run_Some:
  "env_user_Current w = Some u \<Longrightarrow>
     \<exists>s'. upload_run w k s = Inr s'
       \<and> us_spawned s' = us_spawned s @ map upload_task (filter (wants (us_pkgs s)) (us_todo s))
       \<and> ItemsInChannels (us_futures s') =
           ItemsInChannels (us_futures s) + int (length (filter (wants (us_pkgs s)) (us_todo s)))
       \<and> length (Channels (us_futures s')) =
           length (Channels (us_futures s)) + length (us_active s)
             + length (filter (wants (us_pkgs s)) (us_todo s))"
proof (induction w k s rule: upload_run.induct)
  case (1 w k s)
  show ?case
  proof (cases rule: upload_step_cases [of s w k])
    case quiescent
    then show ?thesis by (simp add: upload_run.simps [of w k s])
  next
    case (main_turn ic rest)
    note eq = upload_main_step_eq [OF main_turn(1)]
    from "1.IH" [OF main_turn(2) "1.prems"] obtain s' where
      r: "upload_run w (Suc k) (upload_main_step s) = Inr s'"
      and sp: "us_spawned s' = us_spawned (upload_main_step s) @
                 map upload_task (filter (wants (us_pkgs (upload_main_step s))) (us_todo (upload_main_step s)))"
      and cn: "ItemsInChannels (us_futures s') = ItemsInChannels (us_futures (upload_main_step s)) +
                 int (length (filter (wants (us_pkgs (upload_main_step s))) (us_todo (upload_main_step s))))"
      and ch: "length (Channels (us_futures s')) =
                 length (Channels (us_futures (upload_main_step s))) + length (us_active (upload_main_step s))
                 + length (filter (wants (us_pkgs (upload_main_step s))) (us_todo (upload_main_step s)))"
      by blast
    have "upload_run w k s = Inr s'"
      using r main_turn(2) by (simp add: upload_run.simps [of w k s])
    moreover have "us_spawned s' = us_spawned s @ map upload_task (filter (wants (us_pkgs s)) (us_todo s))"
      using sp eq main_turn(1) by simp
    moreover have "ItemsInChannels (us_futures s') =
           ItemsInChannels (us_futures s) + int (length (filter (wants (us_pkgs s)) (us_todo s)))"
      using cn eq main_turn(1) by simp
    moreover have "length (Channels (us_futures s')) =
           length (Channels (us_futures s)) + length (us_active s)
             + length (filter (wants (us_pkgs s)) (us_todo s))"
      using ch eq main_turn(1) by simp
    ultimately show ?thesis by blast
  next
    case (task_turn j)
    from upload_task_step_Some [OF "1.prems"] obtain s1 where
      st: "upload_task_step w j s = Steps s1" by blast
    note eq = upload_task_step_frame [OF st]
    from st task_turn(2) have step: "upload_step w k s = Steps s1" by simp
    from "1.IH" [OF step "1.prems"] obtain s' where
      r: "upload_run w (Suc k) s1 = Inr s'"
      and sp: "us_spawned s' = us_spawned s1 @ map upload_task (filter (wants (us_pkgs s1)) (us_todo s1))"
      and cn: "ItemsInChannels (us_futures s') = ItemsInChannels (us_futures s1) +
                 int (length (filter (wants (us_pkgs s1)) (us_todo s1)))"
      and ch: "length (Channels (us_futures s')) =
                 length (Channels (us_futures s1)) + length (us_active s1)
                 + length (filter (wants (us_pkgs s1)) (us_todo s1))"
      by blast
    have la: "Suc (length (us_active s1)) = length (us_active s)"
      using eq task_turn(1) by simp
    have "upload_run w k s = Inr s'"
      using r step by (simp add: upload_run.simps [of w k s])
    moreover have "us_spawned s' = us_spawned s @ map upload_task (filter (wants (us_pkgs s)) (us_todo s))"
      using sp eq by simp
    moreover have "ItemsInChannels (us_futures s') =
           ItemsInChannels (us_futures s) + int (length (filter (wants (us_pkgs s)) (us_todo s)))"
      using cn eq by simp
    moreover have "length (Channels (us_futures s')) =
           length (Channels (us_futures s)) + length (us_active s)
             + length (filter (wants (us_pkgs s)) (us_todo s))"
      using ch eq la by simp
    ultimately show ?thesis by blast
  qed
qed

text \<open>Without a current user, the first goroutine that runs panics.\<close>

lemma upload_run_None:
  "env_user_Current w = None \<Longrightarrow>
   us_active s \<noteq> [] \<or> filter (wants (us_pkgs s)) (us_todo s) \<noteq> [] \<Longrightarrow>
     \<exists>s'. upload_run w k s = Inl s'"
proof (induction w k s rule: upload_run.induct)
  case (1 w k s)
  show ?case
  proof (cases rule: upload_step_cases [of s w k])
    case quiescent
    with "1.prems"(2) show ?thesis by simp
  next
    case (main_turn ic rest)
    note eq = upload_main_step_eq [OF main_turn(1)]
    have "us_active (upload_main_step s) \<noteq> [] \<or>
          filter (wants (us_pkgs (upload_main_step s))) (us_todo (upload_main_step s)) \<noteq> []"
      using "1.prems"(2) eq main_turn(1) by (auto split: if_splits)
    from "1.IH" [OF main_turn(2) "1.prems"(1) this] main_turn(2)
    show ?thesis by (simp add: upload_run.simps [of w k s])
  next
    case (task_turn j)
    with upload_task_step_None [OF "1.prems"(1), of j s]
    show ?thesis by (simp add: upload_run.simps [of w k s])
  qed
qed

section \<open>The run of \<^verbatim>\<open>main\<close>, stage by stage\<close>

lemma no_futures_simps [simp]: "Channels no_futures = []" "ItemsInChannels no_futures = 0"
  by (simp_all add: no_futures_def)

lemma decodeJsonFile_sent: "snd (decodeJsonFile v m) = [fst (decodeJsonFile v m)]"
  by (simp add: decodeJsonFile_def Let_def)

lemma GetAllPackages_eq:
  "\<exists>ps. GetAllPackages w no_futures = Some (ps, no_futures)
      \<and> mset ps = mset (map (\<lambda>v. fst (decodeJsonFile v (env_manifest w v))) (env_Glob w))"
proof -
  let ?dec = "\<lambda>v. fst (decodeJsonFile v (env_manifest w v))"
  let ?f1 = "foldl (\<lambda>f v. AddFuture f (snd (decodeJsonFile v (env_manifest w v)))) no_futures (env_Glob w)"
  have "?f1 = foldl AddFuture no_futures (map (\<lambda>v. [?dec v]) (env_Glob w))"
    by (simp add: foldl_map decodeJsonFile_sent)
  then have f1: "?f1 = \<lparr>Channels = map ?dec (env_Glob w), ItemsInChannels = int (length (env_Glob w))\<rparr>"
    by (simp add: foldl_AddFuture)
  have "0 \<le> ItemsInChannels ?f1" "nat (ItemsInChannels ?f1) \<le> length (Channels ?f1)"
    unfolding f1 by simp_all
  from recv_loop_returns [OF this, where pick = "env_pick w" and got = "[]"] obtain chan got where
    r: "recv_loop (env_pick w) (ItemsInChannels ?f1) (Channels ?f1) [] = Some (0, chan, got)"
    and l: "length chan + nat (ItemsInChannels ?f1) = length (Channels ?f1)"
    and m: "mset (Channels ?f1) = mset got + mset chan"
    by auto
  from l have c: "chan = []" unfolding f1 by simp
  with m have "mset got = mset (map ?dec (env_Glob w))" unfolding f1 by simp
  moreover from r c have "GetAllPackages w no_futures = Some (got, no_futures)"
    by (simp add: GetAllPackages_def Let_def no_futures_def)
  ultimately show ?thesis by blast
qed

lemma found_eq:
  "GetAllPackages w no_futures = Some (found w, no_futures)"
  "mset (found w) = mset (map (\<lambda>v. fst (decodeJsonFile v (env_manifest w v))) (env_Glob w))"
  "length (found w) = length (env_Glob w)"
proof -
  from GetAllPackages_eq [of w] obtain ps where
    g: "GetAllPackages w no_futures = Some (ps, no_futures)"
    and m: "mset ps = mset (map (\<lambda>v. fst (decodeJsonFile v (env_manifest w v))) (env_Glob w))"
    by blast
  from g have f: "found w = ps" by (simp add: found_def)
  from g f show "GetAllPackages w no_futures = Some (found w, no_futures)" by simp
  from m f show "mset (found w) = mset (map (\<lambda>v. fst (decodeJsonFile v (env_manifest w v))) (env_Glob w))"
    by simp
  then have "size (mset (found w)) = size (mset (map (\<lambda>v. fst (decodeJsonFile v (env_manifest w v))) (env_Glob w)))"
    by simp
  then show "length (found w) = length (env_Glob w)" by simp
qed

lemma list_ex_enumerate_snd:
  "list_ex (\<lambda>x. P (snd x)) (enumerate i ps) = list_ex P ps"
  by (induction ps arbitrary: i) simp_all

lemma filter_enumerate_empty:
  "filter (\<lambda>x. P (snd x)) (enumerate i ps) = [] \<longleftrightarrow> \<not> list_ex P ps"
  by (induction ps arbitrary: i) simp_all

lemma main_validate_eq:
  "main_validate w ps no_futures ts =
     main_assess w (fst (range_pkgs (validate_body w) 0 ps no_futures)) no_futures
       (ts @ map (\<lambda>x. Validate (fst x)) (enumerate 0 ps))"
  by (simp add: main_validate_def validation_stage BlockUntilComplete_all)

lemma main_assess_eq:
  "main_assess w ps no_futures ts =
     (if list_ex Valid ps
      then main_download w (fst (range_pkgs (assess_body w) 0 ps no_futures)) no_futures
             (ts @ map (\<lambda>x. Assess (fst x)) (filter (\<lambda>x. Valid (snd x)) (enumerate 0 ps)))
      else \<lparr>run_spawned = ts, run_result = Fatal ''Unable to process any projects!'',
            run_pkgs = fst (range_pkgs (assess_body w) 0 ps no_futures)\<rparr>)"
proof (cases "list_ex Valid ps")
  case True
  then have "filter (\<lambda>x. Valid (snd x)) (enumerate 0 ps) \<noteq> []"
    by (simp add: filter_enumerate_empty)
  then have "0 < length (filter (\<lambda>x. Valid (snd x)) (enumerate 0 ps))" by simp
  with True show ?thesis
    by (simp add: main_assess_def assessment_stage BlockUntilComplete_all)
next
  case False
  then have "filter (\<lambda>x. Valid (snd x)) (enumerate 0 ps) = []"
    by (simp add: filter_enumerate_empty)
  with False show ?thesis
    by (simp add: main_assess_def assessment_stage)
qed


lemma main_download_eq:
  "main_download w ps no_futures ts =
     (if \<not> list_ex stale ps
      then \<lparr>run_spawned = ts, run_result = Exit 0,
            run_pkgs = fst (range_pkgs (download_body w) 0 ps no_futures)\<rparr>
      else if list_ex (\<lambda>x. stale (snd x) \<and> gives_up (env_download w (fst x))) (enumerate 0 ps)
      then \<lparr>run_spawned = ts @ map (\<lambda>x. Download (fst x)) (filter (\<lambda>x. stale (snd x)) (enumerate 0 ps)),
            run_result = Blocked ''Downloading packages'',
            run_pkgs = fst (range_pkgs (download_body w) 0 ps no_futures)\<rparr>
      else main_upload w (fst (range_pkgs (download_body w) 0 ps no_futures)) no_futures
             (ts @ map (\<lambda>x. Download (fst x)) (filter (\<lambda>x. stale (snd x)) (enumerate 0 ps))))"
proof (cases "list_ex stale ps")
  case False
  then have "filter (\<lambda>x. stale (snd x)) (enumerate 0 ps) = []"
    by (simp add: filter_enumerate_empty)
  with False show ?thesis
    by (simp add: main_download_def download_stage)
next
  case True
  let ?P = "\<lambda>x. stale (snd x)" and ?Q = "\<lambda>x. \<not> gives_up (env_download w (fst x))"
  let ?xs = "enumerate 0 ps"
  from True have "filter ?P ?xs \<noteq> []" by (simp add: filter_enumerate_empty)
  then have pos: "0 < length (filter ?P ?xs)" by simp
  show ?thesis
  proof (cases "list_ex (\<lambda>x. ?P x \<and> \<not> ?Q x) ?xs")
    case gu: True
    with filter_conj_length [of ?P ?Q ?xs]
    have "length (filter (\<lambda>x. ?P x \<and> ?Q x) ?xs) < length (filter ?P ?xs)" by linarith
    then have "BlockUntilComplete (env_pick w) (fst (snd (range_pkgs (download_body w) 0 ps no_futures))) = None"
      by (intro BlockUntilComplete_short) (simp add: download_stage)
    with True gu pos show ?thesis
      by (simp add: main_download_def download_stage)
  next
    case ok: False
    with filter_conj_length [of ?P ?Q ?xs]
    have "length (filter (\<lambda>x. ?P x \<and> ?Q x) ?xs) = length (filter ?P ?xs)" by simp
    then have "BlockUntilComplete (env_pick w) (fst (snd (range_pkgs (download_body w) 0 ps no_futures)))
                 = Some no_futures"
      by (intro BlockUntilComplete_all) (simp add: download_stage)
    with True ok pos show ?thesis
      by (simp add: main_download_def download_stage)
  qed
qed

lemma set_upload_iterations:
  "set (upload_iterations n) = {0..<n} \<times> set AllClusters"
  by (auto simp: upload_iterations_def)

lemma stale_wants:
  "list_ex stale ps \<longleftrightarrow> filter (wants ps) (upload_iterations (length ps)) \<noteq> []"
proof -
  have "list_ex stale ps \<longleftrightarrow> (\<exists>p \<in> set ps. stale p)"
    by (simp add: list_ex_iff)
  also have "\<dots> \<longleftrightarrow> (\<exists>i < length ps. stale (ps ! i))"
    by (metis in_set_conv_nth)
  also have "\<dots> \<longleftrightarrow> (\<exists>i < length ps. \<exists>c \<in> set AllClusters. map_get (NeedUpdate (ps ! i)) c)"
    by (simp add: stale_def list_ex_iff)
  also have "\<dots> \<longleftrightarrow> (\<exists>ic \<in> set (upload_iterations (length ps)). wants ps ic)"
    by (auto simp: set_upload_iterations wants_def)
  also have "\<dots> \<longleftrightarrow> filter (wants ps) (upload_iterations (length ps)) \<noteq> []"
    by (simp add: filter_empty_conv)
  finally show ?thesis .
qed

lemma main_upload_eq:
  assumes "list_ex stale ps"
  shows "run_result (main_upload w ps no_futures ts) =
           (if env_user_Current w = None then Panicked else Returned)"
    and "env_user_Current w \<noteq> None \<Longrightarrow>
           run_spawned (main_upload w ps no_futures ts) =
             ts @ map upload_task (filter (wants ps) (upload_iterations (length ps)))"
proof -
  let ?s = "upload_init ps no_futures"
  from assms have ne: "filter (wants (us_pkgs ?s)) (us_todo ?s) \<noteq> []"
    by (simp add: stale_wants upload_init_def)
  show "run_result (main_upload w ps no_futures ts) =
           (if env_user_Current w = None then Panicked else Returned)"
  proof (cases "env_user_Current w")
    case None
    from upload_run_None [OF None, of ?s 0] ne obtain s' where "upload_run w 0 ?s = Inl s'"
      by blast
    with None show ?thesis by (simp add: main_upload_def)
  next
    case (Some u)
    from upload_run_Some [OF Some, of 0 ?s] obtain s' where
      r: "upload_run w 0 ?s = Inr s'"
      and cn: "ItemsInChannels (us_futures s') =
           ItemsInChannels (us_futures ?s) + int (length (filter (wants (us_pkgs ?s)) (us_todo ?s)))"
      and ch: "length (Channels (us_futures s')) =
           length (Channels (us_futures ?s)) + length (us_active ?s)
             + length (filter (wants (us_pkgs ?s)) (us_todo ?s))"
      by blast
    from cn ch have "ItemsInChannels (us_futures s') = int (length (Channels (us_futures s')))"
      by (simp add: upload_init_def)
    then have "BlockUntilComplete (env_pick w) (us_futures s') = Some no_futures"
      by (rule BlockUntilComplete_all)
    with r Some show ?thesis by (simp add: main_upload_def)
  qed
  show "run_spawned (main_upload w ps no_futures ts) =
          ts @ map upload_task (filter (wants ps) (upload_iterations (length ps)))"
    if "env_user_Current w \<noteq> None"
  proof -
    from that obtain u where Some: "env_user_Current w = Some u" by blast
    from upload_run_Some [OF Some, of 0 ?s] obtain s' where
      r: "upload_run w 0 ?s = Inr s'"
      and sp: "us_spawned s' = us_spawned ?s @ map upload_task (filter (wants (us_pkgs ?s)) (us_todo ?s))"
      by blast
    from r sp show ?thesis
      by (simp add: main_upload_def upload_init_def split: option.splits)
  qed
qed

lemma stale_download_body: "stale (fst (download_body w i p)) = stale p"
  by (simp add: download_started stale_def)

lemma list_ex_stale_downloaded:
  "list_ex stale (fst (range_pkgs (download_body w) 0 ps f)) = list_ex stale ps"
proof -
  have "list_ex stale (map (\<lambda>x. fst (download_body w (fst x) (snd x))) (enumerate i ps)) =
        list_ex stale ps" for i
    by (induction ps arbitrary: i) (simp_all add: stale_download_body)
  then show ?thesis by (simp add: download_stage)
qed

section \<open>The tasks of a run\<close>

lemma upload_run_spawned:
  "\<exists>rest. us_spawned (case upload_run w k s of Inl s' \<Rightarrow> s' | Inr s' \<Rightarrow> s') @ rest =
            us_spawned s @ map upload_task (filter (wants (us_pkgs s)) (us_todo s))"
proof (induction w k s rule: upload_run.induct)
  case (1 w k s)
  show ?case
  proof (cases "upload_step w k s")
    case Quiescent
    then show ?thesis by (simp add: upload_run.simps [of w k s])
  next
    case Panics
    then show ?thesis by (simp add: upload_run.simps [of w k s])
  next
    case (Steps s')
    have "us_spawned s' @ map upload_task (filter (wants (us_pkgs s')) (us_todo s')) =
          us_spawned s @ map upload_task (filter (wants (us_pkgs s)) (us_todo s))"
    proof (cases rule: upload_step_cases [of s w k])
      case quiescent
      with Steps show ?thesis by simp
    next
      case (main_turn ic rest)
      with Steps have "s' = upload_main_step s" by simp
      with upload_main_step_eq [OF main_turn(1)] main_turn(1) show ?thesis by simp
    next
      case (task_turn j)
      with Steps upload_task_step_frame [of w j s s'] show ?thesis by simp
    qed
    with 1 [OF Steps] Steps show ?thesis by (simp add: upload_run.simps [of w k s])
  qed
qed

lemma main_upload_spawned:
  "\<exists>ups rest. run_spawned (main_upload w ps no_futures ts) = ts @ ups
      \<and> ups @ rest = map upload_task (filter (wants ps) (upload_iterations (length ps)))"
proof -
  let ?s = "upload_init ps no_futures"
  let ?fin = "case upload_run w 0 ?s of Inl s' \<Rightarrow> s' | Inr s' \<Rightarrow> s'"
  from upload_run_spawned [of w 0 ?s] obtain rest where
    "us_spawned ?fin @ rest = map upload_task (filter (wants ps) (upload_iterations (length ps)))"
    by (auto simp: upload_init_def)
  moreover have "run_spawned (main_upload w ps no_futures ts) = ts @ us_spawned ?fin"
    by (simp add: main_upload_def split: sum.splits option.splits)
  ultimately show ?thesis by blast
qed

lemma main_upload_pkgs:
  "map frame (run_pkgs (main_upload w ps no_futures ts)) = map frame ps"
proof -
  let ?s = "upload_init ps no_futures"
  let ?fin = "case upload_run w 0 ?s of Inl s' \<Rightarrow> s' | Inr s' \<Rightarrow> s'"
  have "run_pkgs (main_upload w ps no_futures ts) = us_pkgs ?fin"
    by (simp add: main_upload_def split: sum.splits option.splits)
  with upload_run_frame [of w 0 ?s] show ?thesis by (simp add: upload_init_def)
qed

lemma main_eq:
  "main w =
     (if env_Glob w = []
      then \<lparr>run_spawned = [], run_result = Fatal ''No packages found'', run_pkgs = []\<rparr>
      else if \<not> list_ex Valid (validated w)
      then \<lparr>run_spawned = tasks_before_upload w, run_result = Fatal ''Unable to process any projects!'',
            run_pkgs = assessed w\<rparr>
      else if \<not> list_ex stale (assessed w)
      then \<lparr>run_spawned = tasks_before_upload w, run_result = Exit 0, run_pkgs = downloaded w\<rparr>
      else if list_ex (\<lambda>(i, p). stale p \<and> gives_up (env_download w i)) (enumerate 0 (assessed w))
      then \<lparr>run_spawned = tasks_before_upload w, run_result = Blocked ''Downloading packages'',
            run_pkgs = downloaded w\<rparr>
      else main_upload w (downloaded w) no_futures (tasks_before_upload w))"
proof (cases "env_Glob w = []")
  case True
  with found_eq(3) [of w] have "found w = []" by simp
  with True found_eq(1) [of w] show ?thesis
    by (simp add: main_def no_futures_def [symmetric])
next
  case False
  with found_eq(3) [of w] have "\<not> length (found w) < 1" by (cases "found w") auto
  with found_eq(1) [of w] have m: "main w = main_validate w (found w) no_futures (map Decode (env_Glob w))"
    by (simp add: main_def no_futures_def [symmetric])
  have e: "filter (\<lambda>x. stale (snd x)) (enumerate 0 (assessed w)) = []" if "\<not> list_ex stale (assessed w)"
    using that by (simp add: filter_enumerate_empty)
  have v: "filter (\<lambda>x. Valid (snd x)) (enumerate 0 (validated w)) = []" if "\<not> list_ex Valid (validated w)"
    using that by (simp add: filter_enumerate_empty)
  show ?thesis
    unfolding m main_validate_eq validated_def [symmetric]
    unfolding main_assess_eq assessed_def [symmetric]
    unfolding main_download_eq downloaded_def [symmetric]
    using False e v
    by (simp add: tasks_before_upload_def split_def)
qed


lemma main_upload_result_cases:
  "run_result (main_upload w ps futures ts) = Panicked
   \<or> run_result (main_upload w ps futures ts) = Blocked ''Updating packages''
   \<or> run_result (main_upload w ps futures ts) = Returned"
  by (simp add: main_upload_def split: sum.splits option.splits)

lemma empty_run:
  assumes "env_Glob w = []"
  shows "found w = []" "validated w = []" "assessed w = []" "downloaded w = []"
    "tasks_before_upload w = []"
proof -
  from assms found_eq(3) [of w] show f: "found w = []" by simp
  then show v: "validated w = []" by (simp add: validated_def)
  then show a: "assessed w = []" by (simp add: assessed_def)
  then show "downloaded w = []" by (simp add: downloaded_def)
  from assms f v a show "tasks_before_upload w = []" by (simp add: tasks_before_upload_def)
qed

lemma main_spawned:
  "\<exists>ups rest. run_spawned (main w) = tasks_before_upload w @ ups
      \<and> ups @ rest = map upload_task (filter (wants (downloaded w))
                                        (upload_iterations (length (downloaded w))))"
proof -
  let ?all = "map upload_task (filter (wants (downloaded w)) (upload_iterations (length (downloaded w))))"
  have "run_spawned (main w) = tasks_before_upload w
        \<or> main w = main_upload w (downloaded w) no_futures (tasks_before_upload w)"
    by (cases "env_Glob w = []") (simp_all add: main_eq empty_run(5))
  then show ?thesis
  proof
    assume "run_spawned (main w) = tasks_before_upload w"
    then have "run_spawned (main w) = tasks_before_upload w @ [] \<and> [] @ ?all = ?all" by simp
    then show ?thesis by blast
  next
    assume "main w = main_upload w (downloaded w) no_futures (tasks_before_upload w)"
    with main_upload_spawned [of w "downloaded w" "tasks_before_upload w"] show ?thesis by simp
  qed
qed

lemma count_enumerate:
  assumes "inj T"
  shows "count_list (map (\<lambda>x. T (fst x)) (filter (\<lambda>x. P (snd x)) (enumerate k ps))) (T i) =
           (if k \<le> i \<and> i < k + length ps \<and> P (ps ! (i - k)) then 1 else 0)"
proof (induction ps arbitrary: k)
  case Nil
  show ?case by simp
next
  case (Cons p ps)
  have inj: "T a = T b \<longleftrightarrow> a = b" for a b using assms by (auto dest: injD)
  show ?case
  proof (cases "i = k")
    case True
    with Cons [of "Suc k"] show ?thesis by (simp add: inj)
  next
    case False
    have "(p # ps) ! (i - k) = ps ! (i - Suc k)" if "k < i"
      using that by (simp add: nth_Cons')
    with False have "(k \<le> i \<and> i < k + length (p # ps) \<and> P ((p # ps) ! (i - k))) =
               (Suc k \<le> i \<and> i < Suc k + length ps \<and> P (ps ! (i - Suc k)))"
      by (cases "k < i") auto
    with False Cons [of "Suc k"] show ?thesis by (simp add: inj)
  qed
qed

lemma inj_tasks: "inj Validate" "inj Assess" "inj Download"
  by (simp_all add: inj_def)

lemma length_stages:
  "length (found w) = length (env_Glob w)"
  "length (validated w) = length (env_Glob w)"
  "length (assessed w) = length (env_Glob w)"
  "length (downloaded w) = length (env_Glob w)"
  by (simp_all add: found_eq(3) validated_def assessed_def downloaded_def range_pkgs_eq2)

lemma count_tasks_before_upload:
  "count_list (tasks_before_upload w) (Validate i) = (if i < length (env_Glob w) then 1 else 0)"
  "count_list (tasks_before_upload w) (Assess i) =
     (if i < length (env_Glob w) \<and> Valid (validated w ! i) then 1 else 0)"
  "count_list (tasks_before_upload w) (Download i) =
     (if list_ex Valid (validated w) \<and> i < length (env_Glob w) \<and> stale (assessed w ! i)
      then 1 else 0)"
proof -
  have none: "count_list (map (\<lambda>x. T (fst x)) xs) t = 0" if "\<And>j. T j \<noteq> t"
    for T :: "nat \<Rightarrow> task" and xs :: "(nat \<times> Package) list" and t
    using that by (induction xs) auto
  have dec: "count_list (map Decode vs) t = 0" if "\<And>v. Decode v \<noteq> t" for vs t
    using that by (induction vs) auto
  have all: "filter (\<lambda>x. True) xs = xs" for xs :: "(nat \<times> Package) list" by simp
  have val: "count_list (map (\<lambda>x. Validate (fst x)) (enumerate 0 (found w))) (Validate i) =
               (if i < length (env_Glob w) then 1 else 0)"
    using count_enumerate [OF inj_tasks(1), of "\<lambda>p. True" 0 "found w" i]
    by (simp add: length_stages)
  show "count_list (tasks_before_upload w) (Validate i) = (if i < length (env_Glob w) then 1 else 0)"
    using val by (simp add: tasks_before_upload_def split_def dec none)
  show "count_list (tasks_before_upload w) (Assess i) =
     (if i < length (env_Glob w) \<and> Valid (validated w ! i) then 1 else 0)"
    using count_enumerate [OF inj_tasks(2), of Valid 0 "validated w" i]
    by (simp add: tasks_before_upload_def split_def dec none length_stages)
  show "count_list (tasks_before_upload w) (Download i) =
     (if list_ex Valid (validated w) \<and> i < length (env_Glob w) \<and> stale (assessed w ! i)
      then 1 else 0)"
    using count_enumerate [OF inj_tasks(3), of stale 0 "assessed w" i]
    by (simp add: tasks_before_upload_def split_def dec none length_stages)
qed

lemma count_uploads:
  assumes "ups @ rest = map upload_task xs"
  shows "count_list ups (Validate i) = 0" "count_list ups (Assess i) = 0"
    "count_list ups (Download i) = 0"
proof -
  from assms have sub: "set ups \<subseteq> set (map upload_task xs)" by (metis set_append Un_upper1)
  have "t \<noteq> Validate i \<and> t \<noteq> Assess i \<and> t \<noteq> Download i" if "t \<in> set ups" for t
  proof -
    from that sub have "t \<in> upload_task ` set xs" by auto
    then obtain ic where "t = upload_task ic" by (rule imageE)
    then show ?thesis by (simp add: upload_task_def)
  qed
  then have "Validate i \<notin> set ups" "Assess i \<notin> set ups" "Download i \<notin> set ups"
    by blast+
  then show "count_list ups (Validate i) = 0" "count_list ups (Assess i) = 0"
    "count_list ups (Download i) = 0"
    by (simp_all add: count_list_0_iff)
qed

lemma count_run_spawned:
  "count_list (run_spawned (main w)) (Validate i) = (if i < length (env_Glob w) then 1 else 0)"
  "count_list (run_spawned (main w)) (Assess i) =
     (if i < length (env_Glob w) \<and> Valid (validated w ! i) then 1 else 0)"
  "count_list (run_spawned (main w)) (Download i) =
     (if list_ex Valid (validated w) \<and> i < length (env_Glob w) \<and> stale (assessed w ! i)
      then 1 else 0)"
proof -
  from main_spawned [of w] obtain ups rest where
    r: "run_spawned (main w) = tasks_before_upload w @ ups"
    and u: "ups @ rest = map upload_task (filter (wants (downloaded w))
                                           (upload_iterations (length (downloaded w))))"
    by blast
  note c = count_uploads [OF u]
  show "count_list (run_spawned (main w)) (Validate i) = (if i < length (env_Glob w) then 1 else 0)"
    unfolding r by (simp add: count_tasks_before_upload c)
  show "count_list (run_spawned (main w)) (Assess i) =
     (if i < length (env_Glob w) \<and> Valid (validated w ! i) then 1 else 0)"
    unfolding r by (simp add: count_tasks_before_upload c)
  show "count_list (run_spawned (main w)) (Download i) =
     (if list_ex Valid (validated w) \<and> i < length (env_Glob w) \<and> stale (assessed w ! i)
      then 1 else 0)"
    unfolding r by (simp add: count_tasks_before_upload c)
qed

section \<open>The example runs, evaluated\<close>

lemma demo_project_web: "Split_first (path_Base ''config/web.json'') ''.json'' = ''web''"
  by code_simp

lemma demo_project_api: "Split_first (path_Base ''config/api.json'') ''.json'' = ''api''"
  by code_simp

lemma demo_env:
  "env_Glob (demo_world io sched) = [''config/web.json'', ''config/api.json'']"
  "env_manifest (demo_world io sched) ''config/web.json'' = Decoded demo_web None"
  "env_manifest (demo_world io sched) ''config/api.json'' = Decoded demo_api None"
  "env_pick (demo_world io sched) n = 0"
  "env_http_Get (demo_world io sched) 0 = Inr ''application/x-gzip''"
  "env_http_Get (demo_world io sched) (Suc i) = Inr ''text/plain''"
  "env_package_versions (demo_world io sched) i cluster = Inl ''exit status 1''"
  "env_Join (demo_world io sched) a b = a @ ''/'' @ b"
  "env_Getwd (demo_world io sched) = ''/srv''"
  "env_download (demo_world io sched) i = io"
  "env_user_Current (demo_world io sched) = Some ''deploy''"
  "env_package_add_version (demo_world io sched) i cluster = Inr ''added''"
  "env_sched (demo_world io sched) = sched"
  by (simp_all add: demo_world_def)

lemma demo_io: "gives_up io_ok = False" "gives_up io_fetch_fails = True"
  by (simp_all add: gives_up_def io_ok_def io_fetch_fails_def)

lemma demo_found:
  "found (demo_world io sched) = [demo_web\<lparr>Project := ''web''\<rparr>, demo_api\<lparr>Project := ''api''\<rparr>]"
  by (simp add: found_def GetAllPackages_def demo_env AddFuture_def forward_def no_futures_def
      decodeJsonFile_def Let_def demo_project_web demo_project_api recv_loop.simps chan_recv_def)

lemma demo_validated:
  "validated (demo_world io sched) =
     [demo_web\<lparr>Project := ''web'', Valid := True\<rparr>, demo_api\<lparr>Project := ''api'', Valid := False\<rparr>]"
  by (simp add: validated_def demo_found range_pkgs_eq2 validate_body_eq demo_env probe_ok_def)

lemma demo_assessed:
  "assessed (demo_world io sched) =
     [demo_web\<lparr>Project := ''web'', Valid := True,
               NeedUpdate := [''atla'' \<mapsto> True, ''smf1'' \<mapsto> True]\<rparr>,
      demo_api\<lparr>Project := ''api'', Valid := False\<rparr>]"
  by (simp add: assessed_def demo_validated range_pkgs_eq2 assess_body_eq demo_env
      IsUpdateNeeded_def IsUpdateNeeded_go_def AllClusters_def clusterOkToUpdate_def Let_def
      demo_web_def demo_api_def zero_Package_def)

lemma demo_stale: "map stale (assessed (demo_world io sched)) = [True, True]"
  by (simp add: demo_assessed stale_def AllClusters_def map_get_def demo_web_def demo_api_def
      zero_Package_def)

lemma demo_downloaded:
  "downloaded (demo_world io_ok sched) =
     [demo_web\<lparr>Project := ''web'', Valid := True,
               NeedUpdate := [''atla'' \<mapsto> True, ''smf1'' \<mapsto> True],
               File := ''/srv/downloads_tmp/web/web.tgz''\<rparr>,
      demo_api\<lparr>Project := ''api'', Valid := False, File := ''/srv/downloads_tmp/api/api.txt''\<rparr>]"
proof -
  have b1: "path_Base ''http://ci/web.tgz'' = ''web.tgz''" by code_simp
  have b2: "path_Base ''http://ci/api.txt'' = ''api.txt''" by code_simp
  show ?thesis
    using demo_stale [of io_ok sched]
    by (simp add: downloaded_def demo_assessed demo_env demo_io range_pkgs_eq2
        download_started demo_web_def demo_api_def zero_Package_def b1 b2)
qed

lemma demo_main:
  "main (demo_world io_ok sched) =
     main_upload (demo_world io_ok sched) (downloaded (demo_world io_ok sched)) no_futures
       [Decode ''config/web.json'', Decode ''config/api.json'', Validate 0, Validate 1, Assess 0,
        Download 0, Download 1]"
proof -
  have "\<not> length (found (demo_world io_ok sched)) < 1" by (simp add: demo_found)
  with found_eq(1) [of "demo_world io_ok sched"]
  have m: "main (demo_world io_ok sched) =
      main_validate (demo_world io_ok sched) (found (demo_world io_ok sched)) no_futures
        (map Decode (env_Glob (demo_world io_ok sched)))"
    by (simp add: main_def no_futures_def [symmetric])
  show ?thesis
    unfolding m main_validate_eq validated_def [symmetric]
    unfolding main_assess_eq assessed_def [symmetric]
    unfolding main_download_eq downloaded_def [symmetric]
    using demo_stale [of io_ok sched]
    by (simp add: demo_found demo_validated demo_assessed demo_env demo_io)
qed

text \<open>The whole run with the scheduler \<open>finish_first\<close>.\<close>

lemma demo_run:
  "main (demo_world io_ok finish_first) =
     \<lparr>run_spawned =
        [Decode ''config/web.json'', Decode ''config/api.json'', Validate 0, Validate 1, Assess 0,
         Download 0, Download 1, Upload 0 ''atla'', Upload 0 ''smf1'', Upload 1 ''atla''],
      run_result = Returned,
      run_pkgs =
        [demo_web\<lparr>Project := ''web'', Valid := True,
                  NeedUpdate := [''atla'' \<mapsto> True, ''smf1'' \<mapsto> True],
                  File := ''/srv/downloads_tmp/web/web.tgz'',
                  Updated := [''smf1'' \<mapsto> True]\<rparr>,
         demo_api\<lparr>Project := ''api'', Valid := False, File := ''/srv/downloads_tmp/api/api.txt'',
                  Updated := [''atla'' \<mapsto> True]\<rparr>]\<rparr>"
  unfolding demo_main demo_downloaded
  by (simp add: main_upload_def upload_run.simps upload_step_def upload_main_step_def
      upload_task_step_def UpdatePackage_go_def UpdatePackage_make_def upload_init_def
      upload_iterations_def AllClusters_def map_get_def AddFuture_def forward_def demo_env
      Let_def demo_web_def demo_api_def zero_Package_def BlockUntilComplete_def
      recv_loop.simps chan_recv_def finish_first_def)

text \<open>The whole run with the scheduler \<open>main_first\<close>.\<close>

lemma demo_run_main_first:
  "main (demo_world io_ok main_first) =
     \<lparr>run_spawned =
        [Decode ''config/web.json'', Decode ''config/api.json'', Validate 0, Validate 1, Assess 0,
         Download 0, Download 1, Upload 0 ''atla'', Upload 0 ''smf1'', Upload 1 ''atla''],
      run_result = Returned,
      run_pkgs =
        [demo_web\<lparr>Project := ''web'', Valid := True,
                  NeedUpdate := [''atla'' \<mapsto> True, ''smf1'' \<mapsto> True],
                  File := ''/srv/downloads_tmp/web/web.tgz'',
                  Updated := [''atla'' \<mapsto> True, ''smf1'' \<mapsto> True]\<rparr>,
         demo_api\<lparr>Project := ''api'', Valid := False, File := ''/srv/downloads_tmp/api/api.txt'',
                  Updated := [''atla'' \<mapsto> True]\<rparr>]\<rparr>"
  unfolding demo_main demo_downloaded
  by (simp add: main_upload_def upload_run.simps upload_step_def upload_main_step_def
      upload_task_step_def UpdatePackage_go_def UpdatePackage_make_def upload_init_def
      upload_iterations_def AllClusters_def map_get_def AddFuture_def forward_def demo_env
      Let_def demo_web_def demo_api_def zero_Package_def BlockUntilComplete_def
      recv_loop.simps chan_recv_def main_first_def)

lemma demo_two_active:
  "us_active (upload_after (demo_world io_ok main_first) 0 2
                (upload_init (downloaded (demo_world io_ok main_first)) no_futures))
     = [(0, ''atla''), (0, ''smf1'')]"
  unfolding demo_downloaded
  by (simp add: numeral_2_eq_2 upload_step_def upload_main_step_def upload_init_def
      upload_iterations_def AllClusters_def map_get_def AddFuture_def forward_def demo_env
      Let_def demo_web_def demo_api_def zero_Package_def main_first_def UpdatePackage_make_def)

section \<open>The gates of the driver\<close>

text \<open>
  Claim C7. How a run of \<^verbatim>\<open>main\<close> ends: fatally when nothing matched; fatally when no
  package is valid after validation; with exit code 0 when no package is stale after
  the assessment; otherwise it goes into the download stage and, once that stage's drain
  has returned, through the upload stage to the normal return, with no further test on
  the amount of work. The only other ends are those of the stages themselves: the drain
  of the download stage never returns when a download gives up, and an upload task
  panics when the current user cannot be found. A run that returns has started, after
  the tasks of the earlier stages, one upload task for every flagged pair of a package
  and a cluster.
\<close>

theorem main_gates:
  "run_result (main w) =
     (if env_Glob w = [] then Fatal ''No packages found''
      else if \<not> list_ex Valid (validated w) then Fatal ''Unable to process any projects!''
      else if \<not> list_ex stale (assessed w) then Exit 0
      else if list_ex (\<lambda>(i, p). stale p \<and> gives_up (env_download w i)) (enumerate 0 (assessed w))
      then Blocked ''Downloading packages''
      else if env_user_Current w = None then Panicked
      else Returned)
   \<and> (run_result (main w) = Returned \<longrightarrow>
        run_spawned (main w) =
          tasks_before_upload w
          @ map upload_task (filter (wants (downloaded w)) (upload_iterations (length (env_Glob w)))))"
proof (cases "env_Glob w \<noteq> [] \<and> list_ex Valid (validated w) \<and> list_ex stale (assessed w)
    \<and> \<not> list_ex (\<lambda>(i, p). stale p \<and> gives_up (env_download w i)) (enumerate 0 (assessed w))")
  case True
  then have m: "main w = main_upload w (downloaded w) no_futures (tasks_before_upload w)"
    by (simp add: main_eq)
  from True have s: "list_ex stale (downloaded w)"
    by (simp add: downloaded_def list_ex_stale_downloaded)
  from m s have r: "run_result (main w) = (if env_user_Current w = None then Panicked else Returned)"
    by (simp add: main_upload_eq(1))
  have "run_spawned (main w) =
          tasks_before_upload w
          @ map upload_task (filter (wants (downloaded w)) (upload_iterations (length (env_Glob w))))"
    if "run_result (main w) = Returned"
  proof -
    from that r have "env_user_Current w \<noteq> None" by (auto split: if_splits)
    from main_upload_eq(2) [OF s this, of "tasks_before_upload w"] m show ?thesis
      by (simp add: length_stages)
  qed
  with r True show ?thesis by simp
next
  case False
  then show ?thesis by (auto simp: main_eq)
qed

theorem main_gates_witness:
  "run_result (main (demo_world io_ok finish_first)) = Returned
   \<and> run_spawned (main (demo_world io_ok finish_first)) =
       tasks_before_upload (demo_world io_ok finish_first)
       @ map upload_task (filter (wants (downloaded (demo_world io_ok finish_first)))
                            (upload_iterations (length (env_Glob (demo_world io_ok finish_first)))))
   \<and> run_result (main ((demo_world io_ok finish_first)\<lparr>env_Glob := []\<rparr>)) = Fatal ''No packages found''"
proof -
  have r: "run_result (main (demo_world io_ok finish_first)) = Returned"
    using main_gates [of "demo_world io_ok finish_first"] demo_stale [of io_ok finish_first]
    by (simp add: demo_env demo_io demo_validated demo_assessed)
  with main_gates [of "demo_world io_ok finish_first"]
  have "run_spawned (main (demo_world io_ok finish_first)) =
       tasks_before_upload (demo_world io_ok finish_first)
       @ map upload_task (filter (wants (downloaded (demo_world io_ok finish_first)))
                            (upload_iterations (length (env_Glob (demo_world io_ok finish_first)))))"
    by blast
  moreover have "run_result (main ((demo_world io_ok finish_first)\<lparr>env_Glob := []\<rparr>))
                   = Fatal ''No packages found''"
    using main_gates [of "(demo_world io_ok finish_first)\<lparr>env_Glob := []\<rparr>"] by simp
  ultimately show ?thesis using r by blast
qed

section \<open>A download that gives up\<close>

text \<open>
  Claim C1 says that every task sends exactly one value on its future on every path, the
  download task also when the directory creation, the fetch or the copy fails. In the
  source the download goroutine returns at each of these failures before the send.
  Evaluated for a download whose \<^verbatim>\<open>http.Get\<close> fails: the task sends nothing, the drain
  that waits for it never returns, and the run of the example ends in
  \<^verbatim>\<open>BlockUntilComplete("Downloading packages")\<close>.
\<close>

theorem download_failure_sends_nothing:
  "snd (DownloadArtifact join p basedir io_fetch_fails) = []
   \<and> BlockUntilComplete pick (AddFuture no_futures (snd (DownloadArtifact join p basedir io_fetch_fails)))
       = None
   \<and> run_result (main (demo_world io_fetch_fails sched)) = Blocked ''Downloading packages''"
proof -
  have s: "snd (DownloadArtifact join p basedir io_fetch_fails) = []"
    by (simp add: DownloadArtifact_eq demo_io)
  have "BlockUntilComplete pick (AddFuture no_futures []) = None"
    by (rule BlockUntilComplete_short) (simp add: AddFuture_def forward_def)
  moreover have "run_result (main (demo_world io_fetch_fails sched)) = Blocked ''Downloading packages''"
    using demo_stale [of io_fetch_fails sched]
    by (simp add: main_eq demo_env demo_io demo_validated demo_assessed)
  ultimately show ?thesis using s by simp
qed

text \<open>The other tasks send exactly one value on every path that returns.\<close>

lemma other_tasks_send_once:
  "length (snd (decodeJsonFile jsonFile m)) = 1"
  "length (snd (CheckIfValidPackage p response)) = 1"
  "length (snd (IsUpdateNeeded p query)) = 1"
  "UpdatePackage_go p cluster (Some username) run = Some (q, sent) \<Longrightarrow> length sent = 1"
  "length (snd (DownloadArtifact join p basedir io)) = (if gives_up io then 0 else 1)"
  by (auto simp: decodeJsonFile_def CheckIfValidPackage_eq IsUpdateNeeded_def Let_def
      UpdatePackage_go_def DownloadArtifact_eq)

section \<open>The upload stage writes one record from several tasks\<close>

text \<open>
  Claim C2 says that after the upload stage the \<^verbatim>\<open>Updated\<close> map of a package has an entry
  for every cluster for which an upload was attempted. \<^verbatim>\<open>UpdatePackage\<close> replaces the map
  by a fresh one at every call, so an entry written before the next call is lost.
  Evaluated on the example with the scheduler \<open>finish_first\<close>: the run returns, the
  upload for package 0 and cluster \<^verbatim>\<open>atla\<close> was started and its tool succeeded, and the
  map has no entry for \<^verbatim>\<open>atla\<close>.
\<close>

theorem updated_entry_lost:
  "run_result (main (demo_world io_ok finish_first)) = Returned
   \<and> Upload 0 ''atla'' \<in> set (run_spawned (main (demo_world io_ok finish_first)))
   \<and> env_package_add_version (demo_world io_ok finish_first) 0 ''atla'' = Inr ''added''
   \<and> Updated (run_pkgs (main (demo_world io_ok finish_first)) ! 0) ''atla'' = None
   \<and> Updated (run_pkgs (main (demo_world io_ok finish_first)) ! 0) ''smf1'' = Some True"
  by (simp add: demo_run demo_env)

text \<open>
  Claim C9 says that no two concurrent tasks of one stage write the same record, in
  particular not two upload tasks of one package. Evaluated on the example with the
  scheduler \<open>main_first\<close>: after two steps of the upload stage the goroutines for
  \<^verbatim>\<open>atla\<close> and for \<^verbatim>\<open>smf1\<close> of package 0 are both started and have both still to write
  into the \<^verbatim>\<open>Updated\<close> map of that one record; at the end both have written it.
\<close>

theorem two_upload_tasks_on_one_record:
  "us_active (upload_after (demo_world io_ok main_first) 0 2
                (upload_init (downloaded (demo_world io_ok main_first)) no_futures))
     = [(0, ''atla''), (0, ''smf1'')]
   \<and> Updated (run_pkgs (main (demo_world io_ok main_first)) ! 0)
       = [''atla'' \<mapsto> True, ''smf1'' \<mapsto> True]"
  by (simp add: demo_two_active demo_run_main_first)

text \<open>
  In the validation, assessment and download stages every task is started for a record
  of its own: the tasks of a stage are pairwise different, one per position at most.
\<close>

lemma stage_tasks_distinct:
  "distinct (snd (snd (range_pkgs (validate_body w) 0 ps futures)))"
  "distinct (snd (snd (range_pkgs (assess_body w) 0 ps futures)))"
  "distinct (snd (snd (range_pkgs (download_body w) 0 ps futures)))"
proof -
  have d: "distinct (map (\<lambda>x. T (fst x)) (filter P (enumerate 0 ps)))" if "inj T"
    for T :: "nat \<Rightarrow> task" and P
  proof -
    have "distinct (map fst (filter P (enumerate 0 ps)))"
      by (rule distinct_map_filter) simp
    moreover from that have "inj_on T (set (map fst (filter P (enumerate 0 ps))))"
      by (rule inj_on_subset) simp
    ultimately have "distinct (map T (map fst (filter P (enumerate 0 ps))))"
      by (simp only: distinct_map)
    then show ?thesis by (simp only: map_map comp_def)
  qed
  from d [OF inj_tasks(1), of "\<lambda>x. True"]
  show "distinct (snd (snd (range_pkgs (validate_body w) 0 ps futures)))"
    by (simp add: validation_stage)
  from d [OF inj_tasks(2)]
  show "distinct (snd (snd (range_pkgs (assess_body w) 0 ps futures)))"
    by (simp add: assessment_stage)
  from d [OF inj_tasks(3)]
  show "distinct (snd (snd (range_pkgs (download_body w) 0 ps futures)))"
    by (simp add: download_stage)
qed

section \<open>Invalid packages in the later stages\<close>

text \<open>
  Claim C5 says that no assessment, download or upload task is started for a package
  that is invalid after validation. The assessment loop tests \<^verbatim>\<open>p.Valid\<close>; the download
  and upload loops test only \<^verbatim>\<open>p.NeedUpdate[cluster]\<close>, and for an invalid package that
  map is what the decoder read from the manifest. Evaluated on the example: package 1
  is invalid, no assessment task is started for it, and a download task and an upload
  task are.
\<close>

theorem invalid_package_downloaded_and_uploaded:
  "\<not> Valid (validated (demo_world io_ok finish_first) ! 1)
   \<and> Assess 1 \<notin> set (run_spawned (main (demo_world io_ok finish_first)))
   \<and> Download 1 \<in> set (run_spawned (main (demo_world io_ok finish_first)))
   \<and> Upload 1 ''atla'' \<in> set (run_spawned (main (demo_world io_ok finish_first)))"
  by (simp add: demo_run demo_validated)

section \<open>One download per stale package\<close>

lemma download_scan_break:
  "\<not> list_ex (map_get (NeedUpdate p)) pre \<Longrightarrow> map_get (NeedUpdate p) cluster \<Longrightarrow>
     download_scan w i p (pre @ cluster # post) = download_scan w i p [cluster]"
  by (induction pre) simp_all

text \<open>
  Claim C6. The download loop starts exactly one download task for a package with a
  flagged cluster and none for a package without: the scan of the clusters ends at the
  first flagged cluster, whatever follows it; over the whole list of packages the
  download tasks are those of the stale packages, one each; and in a run that reaches
  the download stage (some package is valid) the task \<open>Download i\<close> is started once if
  package \<open>i\<close> is stale and not at all otherwise.
\<close>

theorem download_once_per_stale_package:
  "(stale p \<longrightarrow> (\<exists>future. snd (download_body w i p) = [(Download i, future)]))
   \<and> (\<not> stale p \<longrightarrow> download_body w i p = (p, []))
   \<and> (\<forall>pre cluster post.
         \<not> list_ex (map_get (NeedUpdate p)) pre \<and> map_get (NeedUpdate p) cluster \<longrightarrow>
         download_scan w i p (pre @ cluster # post) = download_scan w i p [cluster])
   \<and> snd (snd (range_pkgs (download_body w) 0 ps futures)) =
        map (\<lambda>(j, q). Download j) (filter (\<lambda>(j, q). stale q) (enumerate 0 ps))
   \<and> count_list (snd (snd (range_pkgs (download_body w) 0 ps futures))) (Download i) =
        (if i < length ps \<and> stale (ps ! i) then 1 else 0)
   \<and> count_list (run_spawned (main w)) (Download i) =
        (if list_ex Valid (validated w) \<and> i < length (env_Glob w) \<and> stale (assessed w ! i)
         then 1 else 0)"
proof -
  have 1: "stale p \<longrightarrow> (\<exists>future. snd (download_body w i p) = [(Download i, future)])"
    by (simp add: download_body_eq)
  have 2: "\<not> stale p \<longrightarrow> download_body w i p = (p, [])"
    by (simp add: download_body_eq)
  have 3: "\<forall>pre cluster post.
         \<not> list_ex (map_get (NeedUpdate p)) pre \<and> map_get (NeedUpdate p) cluster \<longrightarrow>
         download_scan w i p (pre @ cluster # post) = download_scan w i p [cluster]"
    using download_scan_break by blast
  have 4: "snd (snd (range_pkgs (download_body w) 0 ps futures)) =
        map (\<lambda>(j, q). Download j) (filter (\<lambda>(j, q). stale q) (enumerate 0 ps))"
    by (simp add: download_stage split_def)
  have 5: "count_list (snd (snd (range_pkgs (download_body w) 0 ps futures))) (Download i) =
        (if i < length ps \<and> stale (ps ! i) then 1 else 0)"
    using count_enumerate [OF inj_tasks(3), of stale 0 ps i] by (simp add: download_stage)
  note 6 = count_run_spawned(3) [of w i]
  from 1 2 3 4 5 6 show ?thesis by blast
qed

theorem download_once_per_stale_package_witness:
  "stale (assessed (demo_world io_ok finish_first) ! 0)
   \<and> (\<exists>future. snd (download_body (demo_world io_ok finish_first) 0
                      (assessed (demo_world io_ok finish_first) ! 0)) = [(Download 0, future)])
   \<and> count_list (run_spawned (main (demo_world io_ok finish_first))) (Download 0) = 1"
proof -
  let ?w = "demo_world io_ok finish_first"
  from demo_stale [of io_ok finish_first] have s: "stale (assessed ?w ! 0)"
    by (cases "assessed ?w") auto
  have v: "list_ex Valid (validated ?w)" by (simp add: demo_validated)
  from download_once_per_stale_package [of "assessed ?w ! 0" ?w 0 "[]" no_futures] s v
  show ?thesis by (simp add: demo_env)
qed

section \<open>Validity\<close>

lemma Valid_IsUpdateNeeded_go: "Valid (IsUpdateNeeded_go query p clusters) = Valid p"
  unfolding IsUpdateNeeded_go_def by (induction clusters arbitrary: p) simp_all

lemma Valid_IsUpdateNeeded: "Valid (fst (IsUpdateNeeded p query)) = Valid p"
  by (simp add: IsUpdateNeeded_def Let_def Valid_IsUpdateNeeded_go)

lemma Valid_assessed: "map Valid (assessed w) = map Valid (validated w)"
proof -
  let ?f = "\<lambda>x. if Valid (snd x)
                then fst (IsUpdateNeeded (snd x) (env_package_versions w (fst x))) else snd x"
  have h: "map Valid (map ?f xs) = map Valid (map snd xs)" for xs
    by (induction xs) (simp_all add: Valid_IsUpdateNeeded)
  have "assessed w = map ?f (enumerate 0 (validated w))"
    by (simp add: assessed_def assessment_stage)
  then have "map Valid (assessed w) = map Valid (map snd (enumerate 0 (validated w)))"
    by (simp only: h)
  then show ?thesis by (simp only: map_snd_enumerate)
qed

lemma Valid_downloaded: "map Valid (downloaded w) = map Valid (assessed w)"
proof -
  let ?f = "\<lambda>x. fst (download_body w (fst x) (snd x))"
  have h: "map Valid (map ?f xs) = map Valid (map snd xs)" for xs
    by (induction xs) (simp_all add: download_started)
  have "downloaded w = map ?f (enumerate 0 (assessed w))"
    by (simp add: downloaded_def download_stage)
  then have "map Valid (downloaded w) = map Valid (map snd (enumerate 0 (assessed w)))"
    by (simp only: h)
  then show ?thesis by (simp only: map_snd_enumerate)
qed

lemma Valid_frame: "map Valid (map frame ps) = map Valid ps"
  by (simp add: frame_def)

lemma Valid_run_pkgs: "map Valid (run_pkgs (main w)) = map Valid (validated w)"
proof -
  have "map Valid (run_pkgs (main_upload w (downloaded w) no_futures ts)) = map Valid (validated w)"
    for ts
    using main_upload_pkgs [of w "downloaded w" ts] Valid_frame
    by (metis Valid_downloaded Valid_assessed)
  then show ?thesis
    by (cases "env_Glob w = []")
       (simp_all add: main_eq empty_run Valid_assessed Valid_downloaded)
qed

lemma Valid_validated:
  "map Valid (validated w) = map (\<lambda>i. probe_ok (env_http_Get w i)) [0..<length (env_Glob w)]"
proof -
  have h: "map (\<lambda>x. probe_ok (env_http_Get w (fst x))) xs =
           map (\<lambda>i. probe_ok (env_http_Get w i)) (map fst xs)" for xs :: "(nat \<times> Package) list"
    by (induction xs) simp_all
  have "map Valid (validated w) = map (\<lambda>x. probe_ok (env_http_Get w (fst x))) (enumerate 0 (found w))"
    by (simp add: validated_def validation_stage)
  also have "\<dots> = map (\<lambda>i. probe_ok (env_http_Get w i)) (map fst (enumerate 0 (found w)))"
    by (rule h)
  also have "map fst (enumerate 0 (found w)) = [0..<length (env_Glob w)]"
    by (simp only: map_fst_enumerate length_stages) simp
  finally show ?thesis .
qed

lemma Valid_writes_eq:
  "Valid_writes response = (if probe_ok response then [False, True] else [False])"
  by (cases response)
     (auto simp: Valid_writes_def probe_ok_def stringInArray_set acceptableMIMETypes_def)

text \<open>
  Claim C8, as amended. The validation task of a record leaves \<^verbatim>\<open>Valid\<close> true exactly when
  the probe succeeds with one of the three content types. The task assigns the field
  \<^verbatim>\<open>false\<close> first and, for a valid package, \<^verbatim>\<open>true\<close> afterwards: one assignment for an
  invalid package, two for a valid one, and the record is the result of these
  assignments. Every record gets exactly one validation task, and at the end of the run,
  however it ends, every record has the validity that the validation stage gave it.
\<close>

theorem validity_decided_by_one_task:
  "Valid (fst (CheckIfValidPackage p response)) = probe_ok response
   \<and> Valid_writes response = (if probe_ok response then [False, True] else [False])
   \<and> fst (CheckIfValidPackage p response) = foldl (\<lambda>q b. q\<lparr>Valid := b\<rparr>) p (Valid_writes response)
   \<and> map Valid (validated w) = map (\<lambda>i. probe_ok (env_http_Get w i)) [0..<length (env_Glob w)]
   \<and> count_list (run_spawned (main w)) (Validate i) = (if i < length (env_Glob w) then 1 else 0)
   \<and> map Valid (run_pkgs (main w)) = map Valid (validated w)"
proof -
  have "fst (CheckIfValidPackage p response) = foldl (\<lambda>q b. q\<lparr>Valid := b\<rparr>) p (Valid_writes response)"
    by (simp add: CheckIfValidPackage_eq Valid_writes_eq)
  then show ?thesis
    by (simp add: CheckIfValidPackage_eq Valid_writes_eq Valid_validated count_run_spawned(1)
        Valid_run_pkgs)
qed

text \<open>
  The claim as written says that validity is written exactly once per record. For a
  probe that succeeds with \<^verbatim>\<open>application/zip\<close> the task writes it twice.
\<close>

theorem valid_is_written_twice:
  "Valid_writes (Inr ''application/zip'') = [False, True]"
  by (simp add: Valid_writes_def acceptableMIMETypes_def)

section \<open>Decoding the manifests\<close>

lemma path_Base_file:
  assumes "CHR ''/'' \<notin> set name"
  shows "path_Base (dir @ ''/'' @ name @ ''.json'') = name @ ''.json''"
proof -
  let ?path = "dir @ ''/'' @ name @ ''.json''"
  have r: "rev ?path = rev (name @ ''.json'') @ CHR ''/'' # rev dir" by simp
  have ne: "rev (name @ ''.json'') = CHR ''n'' # rev (name @ ''.jso'')" by simp
  have d: "dropWhile (\<lambda>c. c = CHR ''/'') (rev ?path) = rev ?path"
    unfolding r ne by simp
  have "takeWhile (\<lambda>c. c \<noteq> CHR ''/'') (rev (name @ ''.json'') @ CHR ''/'' # rev dir) =
        rev (name @ ''.json'') @ takeWhile (\<lambda>c. c \<noteq> CHR ''/'') (CHR ''/'' # rev dir)"
    by (rule takeWhile_append2) (use assms in auto)
  also have "\<dots> = rev (name @ ''.json'')" by simp
  finally have t: "takeWhile (\<lambda>c. c \<noteq> CHR ''/'') (rev ?path) = rev (name @ ''.json'')"
    unfolding r .
  have "path_Base ?path = name @ ''.json''"
    unfolding path_Base_def Let_def d rev_rev_ident t by simp
  then show ?thesis .
qed

lemma Split_first_json:
  "CHR ''.'' \<notin> set name \<Longrightarrow> Split_first (name @ ''.json'') ''.json'' = name"
  by (induction name) auto

text \<open>
  Claim C10, as amended. For every manifest path the decoding task delivers exactly one
  record, whatever opening and decoding do, and the record's project is the text of the
  path's last element before the first \<^verbatim>\<open>.json\<close> (for \<^verbatim>\<open>dir/name.json\<close>, with no slash
  and no dot in \<^verbatim>\<open>name\<close>, it is \<^verbatim>\<open>name\<close>). When the file cannot be opened the artifact
  URL and the revision are empty; when the decoder was run they are what the decoder
  left, error or not. \<^verbatim>\<open>GetAllPackages\<close> returns as many records as there are matches,
  namely the decoded records in some order, so the run ends with "No packages found"
  exactly when nothing matched.
\<close>

theorem decodeJsonFile_always_delivers:
  "snd (decodeJsonFile jsonFile m) = [fst (decodeJsonFile jsonFile m)]
   \<and> Project (fst (decodeJsonFile jsonFile m)) = Split_first (path_Base jsonFile) ''.json''
   \<and> (\<forall>dir name. jsonFile = dir @ ''/'' @ name @ ''.json'' \<and> CHR ''/'' \<notin> set name
         \<and> CHR ''.'' \<notin> set name \<longrightarrow> Project (fst (decodeJsonFile jsonFile m)) = name)
   \<and> (\<forall>e. m = OpenError e \<longrightarrow>
         Artifact (fst (decodeJsonFile jsonFile m)) = [] \<and> Revision (fst (decodeJsonFile jsonFile m)) = [])
   \<and> (\<forall>q err. m = Decoded q err \<longrightarrow>
         Artifact (fst (decodeJsonFile jsonFile m)) = Artifact q
         \<and> Revision (fst (decodeJsonFile jsonFile m)) = Revision q)
   \<and> GetAllPackages w no_futures = Some (found w, no_futures)
   \<and> length (found w) = length (env_Glob w)
   \<and> mset (found w) = mset (map (\<lambda>v. fst (decodeJsonFile v (env_manifest w v))) (env_Glob w))
   \<and> (run_result (main w) = Fatal ''No packages found'' \<longleftrightarrow> env_Glob w = [])"
proof -
  have p: "Project (fst (decodeJsonFile jsonFile m)) = Split_first (path_Base jsonFile) ''.json''"
    by (simp add: decodeJsonFile_def Let_def)
  have n: "\<forall>dir name. jsonFile = dir @ ''/'' @ name @ ''.json'' \<and> CHR ''/'' \<notin> set name
         \<and> CHR ''.'' \<notin> set name \<longrightarrow> Project (fst (decodeJsonFile jsonFile m)) = name"
    unfolding p using path_Base_file Split_first_json by simp
  have o: "\<forall>e. m = OpenError e \<longrightarrow>
         Artifact (fst (decodeJsonFile jsonFile m)) = [] \<and> Revision (fst (decodeJsonFile jsonFile m)) = []"
    by (simp add: decodeJsonFile_def Let_def zero_Package_def)
  have d: "\<forall>q err. m = Decoded q err \<longrightarrow>
         Artifact (fst (decodeJsonFile jsonFile m)) = Artifact q
         \<and> Revision (fst (decodeJsonFile jsonFile m)) = Revision q"
    by (simp add: decodeJsonFile_def Let_def)
  have g: "run_result (main w) = Fatal ''No packages found'' \<longleftrightarrow> env_Glob w = []"
    using main_upload_result_cases [of w "downloaded w" no_futures "tasks_before_upload w"]
    by (auto simp: main_eq)
  from p n o d g decodeJsonFile_sent [of jsonFile m] found_eq [of w] show ?thesis by blast
qed

theorem decodeJsonFile_always_delivers_witness:
  "Artifact (fst (decodeJsonFile ''config/web.json'' (OpenError ''permission denied''))) = []
   \<and> Revision (fst (decodeJsonFile ''config/web.json'' (OpenError ''permission denied''))) = []
   \<and> Project (fst (decodeJsonFile ''config/web.json'' (OpenError ''permission denied''))) = ''web''
   \<and> Artifact (fst (decodeJsonFile ''config/web.json'' (Decoded demo_web None))) = Artifact demo_web"
proof -
  have f: "''config/web.json'' = ''config'' @ ''/'' @ ''web'' @ ''.json''" by simp
  have a: "CHR ''/'' \<notin> set ''web''" "CHR ''.'' \<notin> set ''web''" by simp_all
  from decodeJsonFile_always_delivers [of "''config/web.json''" "OpenError ''permission denied''"]
    f a
  have "Artifact (fst (decodeJsonFile ''config/web.json'' (OpenError ''permission denied''))) = []
    \<and> Revision (fst (decodeJsonFile ''config/web.json'' (OpenError ''permission denied''))) = []
    \<and> Project (fst (decodeJsonFile ''config/web.json'' (OpenError ''permission denied''))) = ''web''"
    by blast
  moreover from decodeJsonFile_always_delivers [of "''config/web.json''" "Decoded demo_web None"]
  have "Artifact (fst (decodeJsonFile ''config/web.json'' (Decoded demo_web None))) = Artifact demo_web"
    by blast
  ultimately show ?thesis by blast
qed

text \<open>
  The claim as written says that a record whose decoding failed has an empty artifact URL
  and revision. A manifest \<^verbatim>\<open>{"Artifact": "http://ci/web.tgz", "Revision": 7}\<close> makes the
  decoder store the artifact and return an error for the revision.
\<close>

theorem failed_decode_keeps_artifact:
  "Artifact (fst (decodeJsonFile ''config/web.json''
      (Decoded (zero_Package\<lparr>Artifact := ''http://ci/web.tgz''\<rparr>)
         (Some ''json: cannot unmarshal number into Go struct field Package.Revision of type string''))))
   = ''http://ci/web.tgz''"
  by (simp add: decodeJsonFile_def Let_def)

end
